theory Spec2Isabelle
  imports Main "HOL-Library.Word"
begin

unbundle bit_operations_syntax

section \<open>The machine: byte-addressed memory and the stores a call issues\<close>

text \<open>
  The C types of \<^verbatim>\<open>memset.c\<close> are read as follows.
  \<^item> A pointer, a \<^verbatim>\<open>size_t\<close> and a \<^verbatim>\<open>uintptr_t\<close> are \<open>'a word\<close>: the width of an
    address is a parameter of the development.
  \<^item> \<^verbatim>\<open>int\<close> and \<^verbatim>\<open>unsigned int\<close> are 32 bits wide, \<^verbatim>\<open>uint32_t\<close> is \<open>32 word\<close>.
  \<^item> \<^verbatim>\<open>typedef char byte\<close> is \<open>8 word\<close>; storing \<^verbatim>\<open>c & 0xff\<close> into it keeps the low
    eight bits.
  Memory is flat: every address holds a byte and every store succeeds, and address
  arithmetic wraps around at the width of a pointer. A store of a whole word is
  little-endian (the source names x86), and may be issued at any address.
  Besides the memory, the state keeps the sequence of stores issued so far, oldest first, so
  that statements about which stores a call performs can be made.

  The caller of a filler owns the \<open>sz\<close> bytes from \<open>s\<close> and nothing else. A call in this
  model always runs to its end; the program's call does so only as long as its stores stay
  in memory it may write. A call that issues a store outside the caller's region
  (\<open>stays_in\<close> below is false of its stores) is therefore not a call that the program
  completes with the promised result, whatever state the model gives it.
\<close>

type_synonym byte = "8 word"
type_synonym cint = "32 word"

datatype ('p, 'v) store = Store_Byte 'p byte | Store_Word 'p 'v

record ('p, 'v) machine =
  mem :: "'p \<Rightarrow> byte"
  trace :: "('p, 'v) store list"

text \<open>\<^verbatim>\<open>*p = x\<close> through a \<^verbatim>\<open>byte*\<close>.\<close>

definition store_byte :: "'a::len word \<Rightarrow> byte \<Rightarrow> ('a word, 'v) machine \<Rightarrow> ('a word, 'v) machine" where
  "store_byte p x st = st\<lparr>mem := (mem st)(p := x), trace := trace st @ [Store_Byte p x]\<rparr>"

text \<open>
  The bytes of memory after a word \<open>x\<close> of \<open>LENGTH('w) div 8\<close> bytes has been written at
  \<open>p\<close>: byte \<open>k\<close> of the word, counted from the least significant one, lands at \<open>p + k\<close>.
\<close>

definition write_word :: "'a::len word \<Rightarrow> 'w::len word \<Rightarrow> ('a word \<Rightarrow> byte) \<Rightarrow> 'a word \<Rightarrow> byte" where
  "write_word p x m =
     fold (\<lambda>k m'. m'(p + of_nat k := ucast (drop_bit (8 * k) x))) [0..<LENGTH('w) div 8] m"

text \<open>\<^verbatim>\<open>*p = x\<close> through a \<^verbatim>\<open>uint32_t*\<close> or a \<^verbatim>\<open>uintptr_t*\<close>.\<close>

definition store_word :: "'a::len word \<Rightarrow> 'w::len word \<Rightarrow> ('a word, 'w word) machine
    \<Rightarrow> ('a word, 'w word) machine" where
  "store_word p x st = st\<lparr>mem := write_word p x (mem st), trace := trace st @ [Store_Word p x]\<rparr>"

text \<open>
  The region of \<open>n\<close> bytes that starts at \<open>p\<close>, as a test on an address: \<open>a\<close> is one of
  \<open>p, p + 1, \<dots>, p + (n - 1)\<close>.
\<close>

definition in_region :: "'a::len word \<Rightarrow> nat \<Rightarrow> 'a word \<Rightarrow> bool" where
  "in_region p n a = (unat (a - p) < n)"

text \<open>Which kind of store an event is.\<close>

fun is_word_store :: "('p, 'v) store \<Rightarrow> bool" where
  "is_word_store (Store_Byte p x) = False"
| "is_word_store (Store_Word p x) = True"

fun is_byte_store :: "('p, 'v) store \<Rightarrow> bool" where
  "is_byte_store (Store_Byte p x) = True"
| "is_byte_store (Store_Word p x) = False"

section \<open>The loops\<close>

text \<open>
  \<^verbatim>\<open>while (sz--) *p++ = x;\<close> with \<open>p\<close> a \<^verbatim>\<open>byte*\<close>. The test reads \<open>sz\<close> and decrements
  it, also when it reads 0: the counter the loop leaves behind has wrapped.
  The result is the state, the cursor and the counter after the loop.
\<close>

function byte_loop :: "'a::len word \<Rightarrow> byte \<Rightarrow> 'a word \<Rightarrow> ('a word, 'v) machine
    \<Rightarrow> ('a word, 'v) machine \<times> 'a word \<times> 'a word" where
  "byte_loop p x sz st =
     (if sz = 0 then (st, p, sz - 1)
      else byte_loop (p + 1) x (sz - 1) (store_byte p x st))"
  by pat_completeness auto
termination
  by (relation "measure (\<lambda>(p, x, sz, st). unat sz)") (simp_all add: unat_minus_one unat_gt_0)

declare byte_loop.simps [simp del]

text \<open>
  \<^verbatim>\<open>while (sz--) *p++ = x;\<close> with \<open>p\<close> a pointer to words of \<open>LENGTH('w) div 8\<close> bytes:
  the cursor advances by the size of a word.
\<close>

function word_loop :: "'a::len word \<Rightarrow> 'w::len word \<Rightarrow> 'a word \<Rightarrow> ('a word, 'w word) machine
    \<Rightarrow> ('a word, 'w word) machine \<times> 'a word \<times> 'a word" where
  "word_loop p x sz st =
     (if sz = 0 then (st, p, sz - 1)
      else word_loop (p + of_nat (LENGTH('w) div 8)) x (sz - 1) (store_word p x st))"
  by pat_completeness auto
termination
  by (relation "measure (\<lambda>(p, x, sz, st). unat sz)") (simp_all add: unat_minus_one unat_gt_0)

declare word_loop.simps [simp del]

text \<open>
  The prologue of the unaligned fillers,
  \<^verbatim>\<open>while (((unsigned int)pp & m) && sz--) *pp++ = xx;\<close>
  where \<open>m\<close> is 3 or \<^verbatim>\<open>bytes_per_word-1\<close>. The conjunction is evaluated left to right: an
  aligned cursor leaves \<open>sz\<close> untouched, a misaligned one tests and decrements \<open>sz\<close>, also
  when \<open>sz\<close> is 0.
\<close>

function prologue_loop :: "32 word \<Rightarrow> 'a::len word \<Rightarrow> byte \<Rightarrow> 'a word \<Rightarrow> ('a word, 'v) machine
    \<Rightarrow> ('a word, 'v) machine \<times> 'a word \<times> 'a word" where
  "prologue_loop m pp xx sz st =
     (if (ucast pp :: 32 word) AND m = 0 then (st, pp, sz)
      else if sz = 0 then (st, pp, sz - 1)
      else prologue_loop m (pp + 1) xx (sz - 1) (store_byte pp xx st))"
  by pat_completeness auto
termination
  by (relation "measure (\<lambda>(m, pp, xx, sz, st). unat sz)") (simp_all add: unat_minus_one unat_gt_0)

declare prologue_loop.simps [simp del]

text \<open>
  \<^verbatim>\<open>for (i = 3; (1<<i) < __WORDSIZE; ++i) x |= x << (1<<i);\<close>
  \<^verbatim>\<open>__WORDSIZE\<close> comes from the C library's headers, not from this repository: it is the
  parameter \<open>wordsize\<close>. \<^verbatim>\<open>1<<i\<close> is computed without overflow, which is what C does up
  to \<open>i = 30\<close>. The result is \<open>i\<close> and \<open>x\<close> after the loop.
\<close>

function pattern_loop :: "nat \<Rightarrow> nat \<Rightarrow> 'a::len word \<Rightarrow> nat \<times> 'a word" where
  "pattern_loop wordsize i x =
     (if 2 ^ i < wordsize then pattern_loop wordsize (i + 1) (x OR push_bit (2 ^ i) x)
      else (i, x))"
  by pat_completeness auto
termination
  by (relation "measure (\<lambda>(wordsize, i, x). wordsize - 2 ^ i)") (simp_all add: diff_less_mono2)

declare pattern_loop.simps [simp del]

text \<open>
  The pattern word of the 32-bit fillers:
  \<^verbatim>\<open>uint32_t x = c & 0xff; x |= x << 8; x |= x << 16;\<close>
\<close>

definition pattern_32 :: "cint \<Rightarrow> 32 word" where
  "pattern_32 c = (let x = c AND 0xff; x = x OR push_bit 8 x; x = x OR push_bit 16 x in x)"

section \<open>The five fillers\<close>

text \<open>
  Each filler takes \<open>s\<close>, \<open>c\<close>, \<open>sz\<close> and the state, and gives the state after the call
  and the pointer the call returns. The local variables keep their names; a variable that is
  assigned again is bound again.
\<close>

definition bytewise_memset :: "'a::len word \<Rightarrow> cint \<Rightarrow> 'a word \<Rightarrow> ('a word, 'v) machine
    \<Rightarrow> ('a word, 'v) machine \<times> 'a word" where
  "bytewise_memset s c sz st =
     (let p = s;
          x = (ucast (c AND 0xff) :: byte);
          (st, p, sz) = byte_loop p x sz st
      in (st, s))"

text \<open>
  \<^verbatim>\<open>assert(!(sz & 3))\<close> is compiled in: a failing assertion aborts the program, and the call
  has no result (\<open>None\<close>).
\<close>

definition wordwise_32_memset :: "'a::len word \<Rightarrow> cint \<Rightarrow> 'a word \<Rightarrow> ('a word, 32 word) machine
    \<Rightarrow> (('a word, 32 word) machine \<times> 'a word) option" where
  "wordwise_32_memset s c sz st =
     (let p = s;
          x = pattern_32 c
      in if sz AND 3 \<noteq> 0 then None
         else let sz = drop_bit 2 sz;
                  (st, p, sz) = word_loop p x sz st
              in Some (st, s))"

text \<open>
  The generic fillers take \<^verbatim>\<open>__WORDSIZE\<close> as their first argument. \<open>i\<close> starts at 3 and only
  grows, and \<^verbatim>\<open>bytes_per_word\<close> is at least 1, so the subtractions \<open>i - 3\<close> and
  \<open>bytes_per_word - 1\<close> on natural numbers are the C ones.
\<close>

definition wordwise_memset :: "nat \<Rightarrow> 'a::len word \<Rightarrow> cint \<Rightarrow> 'a word \<Rightarrow> ('a word, 'a word) machine
    \<Rightarrow> (('a word, 'a word) machine \<times> 'a word) option" where
  "wordwise_memset wordsize s c sz st =
     (let p = s;
          x = (ucast (c AND 0xff) :: 'a word);
          (i, x) = pattern_loop wordsize 3 x;
          bytes_per_word = (2 ^ (i - 3) :: nat)
      in if sz AND of_nat (bytes_per_word - 1) \<noteq> 0 then None
         else let sz = drop_bit (i - 3) sz;
                  (st, p, sz) = word_loop p x sz st
              in Some (st, s))"

definition wordwise_32_unaligned_memset :: "'a::len word \<Rightarrow> cint \<Rightarrow> 'a word
    \<Rightarrow> ('a word, 32 word) machine \<Rightarrow> ('a word, 32 word) machine \<times> 'a word" where
  "wordwise_32_unaligned_memset s c sz st =
     (let xx = (ucast (c AND 0xff) :: byte);
          pp = s;
          (st, pp, sz) = prologue_loop 3 pp xx sz st;
          p = pp;
          tail = sz AND 3;
          x = pattern_32 c;
          sz = drop_bit 2 sz;
          (st, p, sz) = word_loop p x sz st;
          pp = p;
          (st, pp, tail) = byte_loop pp xx tail st
      in (st, s))"

definition wordwise_unaligned_memset :: "nat \<Rightarrow> 'a::len word \<Rightarrow> cint \<Rightarrow> 'a word
    \<Rightarrow> ('a word, 'a word) machine \<Rightarrow> ('a word, 'a word) machine \<times> 'a word" where
  "wordwise_unaligned_memset wordsize s c sz st =
     (let x = (ucast (c AND 0xff) :: 'a word);
          pp = s;
          xx = (ucast (c AND 0xff) :: byte);
          (i, x) = pattern_loop wordsize 3 x;
          bytes_per_word = (2 ^ (i - 3) :: nat);
          (st, pp, sz) = prologue_loop (of_nat (bytes_per_word - 1)) pp xx sz st;
          tail = sz AND of_nat (bytes_per_word - 1);
          p = pp;
          sz = drop_bit (i - 3) sz;
          (st, p, sz) = word_loop p x sz st;
          pp = p;
          (st, pp, tail) = byte_loop pp xx tail st
      in (st, s))"

section \<open>The verifier\<close>

text \<open>
  \<^verbatim>\<open>check_memset\<close> returns an \<^verbatim>\<open>int\<close>: 0 when every scanned byte matched, otherwise the index
  of the first mismatch plus one (the \<^verbatim>\<open>CHECK\<close> macro prints it minus one). A call of the
  filler under test that stops at a failing assertion ends the program: \<open>Aborted\<close>.
\<close>

datatype outcome = Aborted | Returned cint

text \<open>
  Whether \<^verbatim>\<open>char\<close> is signed is the compiler's choice (GCC on x86: signed). It decides how
  \<^verbatim>\<open>set\<close> is converted in \<^verbatim>\<open>(unsigned int)set\<close> and when it is passed to the filler as an
  \<^verbatim>\<open>int\<close>, so it is a parameter.
\<close>

definition promote_char :: "bool \<Rightarrow> byte \<Rightarrow> cint" where
  "promote_char char_signed x = (if char_signed then scast x else ucast x)"

text \<open>
  The inner loop,
  \<^verbatim>\<open>for (i = unaligned; i < BUFFER_LEN - 2*unaligned; ++i) if (buffer[i] != set) return i + 1;\<close>
  with \<open>bound\<close> for \<^verbatim>\<open>BUFFER_LEN - 2*unaligned\<close>. \<open>Some r\<close> is the \<^verbatim>\<open>return\<close> inside the loop,
  \<open>None\<close> is the loop running to its end.
\<close>

function scan :: "'a::len word \<Rightarrow> cint \<Rightarrow> cint \<Rightarrow> byte \<Rightarrow> ('a word, 'v) machine \<Rightarrow> cint option" where
  "scan buffer bound i set' st =
     (if i <s bound
      then (if mem st (buffer + scast i) \<noteq> set' then Some (i + 1)
            else scan buffer bound (i + 1) set' st)
      else None)"
  by pat_completeness auto
termination
proof (relation "measure (\<lambda>(buffer, bound, i, set', st). nat (sint bound - sint i))")
  show "wf (measure (\<lambda>(buffer :: 'a word, bound :: cint, i :: cint, set' :: byte,
      st :: ('a word, 'v) machine). nat (sint bound - sint i)))"
    by simp
next
  fix buffer :: "'a word" and bound i :: cint and set' :: byte and st :: "('a word, 'v) machine"
  assume "i <s bound"
  then have lt: "sint i < sint bound" by (simp add: word_sless_alt)
  moreover have "sint bound \<le> 2 ^ 31 - 1" using sint_lt [of bound] by simp
  moreover have "- (2 ^ 31) \<le> sint i" using sint_ge [of i] by simp
  ultimately have "signed_take_bit 31 (sint i + 1) = sint i + 1"
    by (intro signed_take_bit_int_eq_self) simp_all
  then have "sint (i + 1) = sint i + 1"
    by (simp add: sint_word_ariths)
  then show "((buffer, bound, i + 1, set', st), (buffer, bound, i, set', st))
      \<in> measure (\<lambda>(buffer, bound, i, set', st). nat (sint bound - sint i))"
    using lt by simp
qed

declare scan.simps [simp del]

text \<open>
  The outer loop, \<^verbatim>\<open>for (set = 0; (unsigned int)set <= 0xff; ++set)\<close>, from the current
  value of \<^verbatim>\<open>set\<close>. \<^verbatim>\<open>set\<close> is a \<^verbatim>\<open>char\<close>: \<^verbatim>\<open>++set\<close> wraps at eight bits. The filler is
  called through \<^verbatim>\<open>void* f()\<close>, so \<^verbatim>\<open>set\<close> arrives as an \<^verbatim>\<open>int\<close> and the \<^verbatim>\<open>int\<close>
  \<^verbatim>\<open>BUFFER_LEN - 2*unaligned\<close> arrives as the \<^verbatim>\<open>size_t\<close> with the same bits. The buffer is a local
  array; its address \<open>buffer\<close> is a parameter. The loop need not end: \<open>None\<close> is the call
  that never returns.
\<close>

partial_function (option) check_loop :: "bool
    \<Rightarrow> ('a::len word \<Rightarrow> cint \<Rightarrow> 'a word \<Rightarrow> ('a word, 'v) machine \<Rightarrow> (('a word, 'v) machine \<times> 'a word) option)
    \<Rightarrow> cint \<Rightarrow> 'a word \<Rightarrow> byte \<Rightarrow> ('a word, 'v) machine \<Rightarrow> outcome option" where
  "check_loop char_signed f unaligned buffer set' st =
     (if promote_char char_signed set' \<le> 0xff
      then (case f (buffer + scast unaligned) (promote_char char_signed set')
                   (ucast (4096 - 2 * unaligned)) st of
              None \<Rightarrow> Some Aborted
            | Some (st, r) \<Rightarrow>
                (case scan buffer (4096 - 2 * unaligned) unaligned set' st of
                   Some fail_byte \<Rightarrow> Some (Returned fail_byte)
                 | None \<Rightarrow> check_loop char_signed f unaligned buffer (set' + 1) st))
      else Some (Returned 0))"

definition check_memset :: "bool
    \<Rightarrow> ('a::len word \<Rightarrow> cint \<Rightarrow> 'a word \<Rightarrow> ('a word, 'v) machine \<Rightarrow> (('a word, 'v) machine \<times> 'a word) option)
    \<Rightarrow> cint \<Rightarrow> 'a word \<Rightarrow> ('a word, 'v) machine \<Rightarrow> outcome option" where
  "check_memset char_signed f unaligned buffer st = check_loop char_signed f unaligned buffer 0 st"

text \<open>
  A filler that always returns, as \<^verbatim>\<open>check_memset\<close> takes it.
\<close>

definition returning :: "('p \<Rightarrow> cint \<Rightarrow> 'p \<Rightarrow> 's \<Rightarrow> 's \<times> 'p) \<Rightarrow> 'p \<Rightarrow> cint \<Rightarrow> 'p \<Rightarrow> 's \<Rightarrow> ('s \<times> 'p) option" where
  "returning f s c sz st = Some (f s c sz st)"

section \<open>Vocabulary for the statements\<close>

text \<open>Memory \<open>m\<close> with the \<open>n\<close> bytes from \<open>p\<close> set to \<open>b\<close>.\<close>

definition fill_mem :: "'a::len word \<Rightarrow> nat \<Rightarrow> byte \<Rightarrow> ('a word \<Rightarrow> byte) \<Rightarrow> 'a word \<Rightarrow> byte" where
  "fill_mem p n b m = (\<lambda>a. if in_region p n a then b else m a)"

text \<open>\<open>n\<close> single-byte stores of \<open>x\<close> at \<open>p, p + 1, \<dots>\<close>, and \<open>n\<close> word stores of \<open>x\<close> at
  \<open>p, p + W, p + 2 W, \<dots>\<close> where \<open>W\<close> is the size of the word in bytes.\<close>

definition byte_stores :: "'a::len word \<Rightarrow> byte \<Rightarrow> nat \<Rightarrow> ('a word, 'v) store list" where
  "byte_stores p x n = map (\<lambda>k. Store_Byte (p + of_nat k) x) [0..<n]"

definition word_stores :: "'a::len word \<Rightarrow> 'w::len word \<Rightarrow> nat \<Rightarrow> ('a word, 'w word) store list" where
  "word_stores p x n = map (\<lambda>k. Store_Word (p + of_nat (LENGTH('w) div 8) * of_nat k) x) [0..<n]"

text \<open>Every byte lane of the word \<open>x\<close> is \<open>b\<close>.\<close>

definition lanes :: "'w::len word \<Rightarrow> byte \<Rightarrow> bool" where
  "lanes x b = (\<forall>k < LENGTH('w) div 8. (ucast (drop_bit (8 * k) x) :: byte) = b)"

text \<open>The number of bytes from \<open>pp\<close> up to the next multiple of \<open>2 ^ j\<close>; 0 when \<open>pp\<close> is one.\<close>

definition distance :: "nat \<Rightarrow> 'a::len word \<Rightarrow> 'a word" where
  "distance j pp = take_bit j (- pp)"

text \<open>The low \<open>2 ^ i\<close> bits of \<open>x\<close> are copies of \<open>b\<close>, the bits above are clear.\<close>

definition replicated :: "nat \<Rightarrow> byte \<Rightarrow> 'a::len word \<Rightarrow> bool" where
  "replicated i b x = (\<forall>n. bit x n = (n < 2 ^ i \<and> n < LENGTH('a) \<and> bit b (n mod 8)))"

text \<open>
  What the two unaligned fillers share once the pattern word \<open>x\<close> and the shift \<open>j\<close> (the
  logarithm of the bytes per word) are known: prologue, \<open>tail\<close>, body, epilogue.
\<close>

definition three_phase :: "nat \<Rightarrow> 'w::len word \<Rightarrow> byte \<Rightarrow> 'a::len word \<Rightarrow> 'a word
    \<Rightarrow> ('a word, 'w word) machine \<Rightarrow> ('a word, 'w word) machine \<times> 'a word" where
  "three_phase j x xx s sz st =
     (let (st, pp, sz) = prologue_loop (mask j) s xx sz st;
          tail = sz AND mask j;
          sz = drop_bit j sz;
          (st, p, sz) = word_loop pp x sz st;
          (st, pp, tail) = byte_loop p xx tail st
      in (st, s))"

text \<open>
  The addresses a store writes, and whether all stores of a list stay inside the \<open>n\<close> bytes
  from \<open>p\<close>.
\<close>

fun footprint :: "('a::len word, 'w::len word) store \<Rightarrow> 'a word list" where
  "footprint (Store_Byte p x) = [p]"
| "footprint (Store_Word p x) = map (\<lambda>k. p + of_nat k) [0..<LENGTH('w) div 8]"

definition stays_in :: "'a::len word \<Rightarrow> nat \<Rightarrow> ('a word, 'w::len word) store list \<Rightarrow> bool" where
  "stays_in p n tr = list_all (\<lambda>e. list_all (in_region p n) (footprint e)) tr"

text \<open>A 32-bit machine whose memory is all zero and that has issued no store, for the examples.\<close>

definition zero32 :: "(32 word, 32 word) machine" where
  "zero32 = \<lparr>mem = \<lambda>_. 0, trace = []\<rparr>"

text \<open>
  A filler to put the verifier to the test: it stores \<^verbatim>\<open>c & 0x7f\<close>, which is the wrong byte for
  every value from 128 to 255.
\<close>

definition low7_memset :: "'a::len word \<Rightarrow> cint \<Rightarrow> 'a word \<Rightarrow> ('a word, 'v) machine
    \<Rightarrow> ('a word, 'v) machine \<times> 'a word" where
  "low7_memset s c sz st = bytewise_memset s (c AND 0x7f) sz st"

section \<open>Regions and the loops\<close>

lemma byte_stores_0 [simp]: "byte_stores p x 0 = []"
  by (simp add: byte_stores_def)

lemma byte_stores_Suc: "byte_stores p x (Suc n) = Store_Byte p x # byte_stores (p + 1) x n"
  by (simp add: byte_stores_def upt_conv_Cons map_Suc_upt [symmetric] add.assoc del: upt_Suc)

lemma word_stores_0 [simp]: "word_stores p x 0 = []"
  by (simp add: word_stores_def)

lemma word_stores_Suc:
  fixes x :: "'w::len word"
  shows "word_stores p x (Suc n) = Store_Word p x # word_stores (p + of_nat (LENGTH('w) div 8)) x n"
  by (simp add: word_stores_def upt_conv_Cons map_Suc_upt [symmetric] algebra_simps del: upt_Suc)

lemma in_region_iff:
  fixes p a :: "'a::len word"
  assumes "n \<le> 2 ^ LENGTH('a)"
  shows "in_region p n a = (\<exists>i<n. a = p + of_nat i)"
proof
  assume "in_region p n a"
  then have "unat (a - p) < n" by (simp add: in_region_def)
  moreover have "a = p + of_nat (unat (a - p))" by simp
  ultimately show "\<exists>i<n. a = p + of_nat i" by blast
next
  assume "\<exists>i<n. a = p + of_nat i"
  then obtain i where i: "i < n" "a = p + of_nat i" by blast
  then have "i < 2 ^ LENGTH('a)" using assms by simp
  then have "unat (of_nat i :: 'a word) = i" by (simp add: unat_of_nat)
  then show "in_region p n a" using i by (simp add: in_region_def)
qed

lemma in_region_0 [simp]: "\<not> in_region p 0 a"
  by (simp add: in_region_def)

lemma in_region_append:
  fixes p a :: "'a::len word"
  assumes "n1 < 2 ^ LENGTH('a)"
  shows "(in_region p n1 a \<or> in_region (p + of_nat n1) n2 a) = in_region p (n1 + n2) a"
proof (cases "unat (a - p) < n1")
  case True
  then show ?thesis by (simp add: in_region_def)
next
  case False
  have u: "unat (of_nat n1 :: 'a word) = n1"
    using assms by (simp add: unat_of_nat)
  have le: "(of_nat n1 :: 'a word) \<le> a - p"
    using False u by (simp add: word_le_nat_alt)
  have e: "a - (p + of_nat n1) = (a - p) - of_nat n1" by simp
  have "unat ((a - p) - of_nat n1) = unat (a - p) - unat (of_nat n1 :: 'a word)"
    using le by (rule unat_sub)
  then have "unat (a - (p + of_nat n1)) = unat (a - p) - n1"
    unfolding e u .
  with False show ?thesis by (auto simp add: in_region_def)
qed

lemma fill_mem_0 [simp]: "fill_mem p 0 b m = m"
  by (simp add: fill_mem_def fun_eq_iff)

lemma fill_mem_append:
  fixes p :: "'a::len word"
  assumes "n1 < 2 ^ LENGTH('a)"
  shows "fill_mem (p + of_nat n1) n2 b (fill_mem p n1 b m) = fill_mem p (n1 + n2) b m"
  using in_region_append [OF assms, of p _ n2]
  by (auto simp add: fill_mem_def fun_eq_iff)

lemma fill_mem_Suc:
  fixes p :: "'a::len word"
  shows "fill_mem (p + 1) n b (m(p := b)) = fill_mem p (Suc n) b m"
proof -
  have "m(p := b) = fill_mem p 1 b m"
    by (auto simp add: fill_mem_def fun_eq_iff in_region_def unat_eq_zero  less_Suc_eq)
  moreover have "(1::nat) < 2 ^ LENGTH('a)" by (rule one_less_power) simp_all
  ultimately show ?thesis
    using fill_mem_append [of 1 p n b m] by simp
qed

lemma byte_loop_eq:
  "byte_loop p x sz st =
     (st\<lparr>mem := fill_mem p (unat sz) x (mem st),
         trace := trace st @ byte_stores p x (unat sz)\<rparr>,
      p + sz, - 1)"
proof (induction p x sz st rule: byte_loop.induct)
  case (1 p x sz st)
  show ?case
  proof (cases "sz = 0")
    case True
    then show ?thesis by (subst byte_loop.simps) simp
  next
    case False
    then have n: "unat sz = Suc (unat (sz - 1))"
      by (simp add: unat_minus_one unat_gt_0)
    have "byte_loop p x sz st = byte_loop (p + 1) x (sz - 1) (store_byte p x st)"
      using False by (subst byte_loop.simps) simp
    also have "\<dots> = (st\<lparr>mem := fill_mem p (unat sz) x (mem st),
         trace := trace st @ byte_stores p x (unat sz)\<rparr>, p + sz, - 1)"
      unfolding "1.IH" [OF False] n
      by (simp add: store_byte_def fill_mem_Suc byte_stores_Suc)
    finally show ?thesis .
  qed
qed



lemma write_word_upto:
  fixes p a :: "'a::len word" and x :: "'w::len word"
  assumes "n \<le> 2 ^ LENGTH('a)"
  shows "fold (\<lambda>k m'. m'(p + of_nat k := ucast (drop_bit (8 * k) x))) [0..<n] m a =
           (if in_region p n a then ucast (drop_bit (8 * unat (a - p)) x) else m a)"
  using assms
proof (induction n)
  case 0
  then show ?case by simp
next
  case (Suc n)
  then have n: "n < 2 ^ LENGTH('a)" by simp
  have u: "unat (of_nat n :: 'a word) = n"
    using n by (simp add: unat_of_nat)
  have eq: "(a = p + of_nat n) = (unat (a - p) = n)"
  proof
    assume "a = p + of_nat n"
    then show "unat (a - p) = n" using u by simp
  next
    assume "unat (a - p) = n"
    then have "a - p = of_nat n" by (metis of_nat_unat ucast_id)
    then show "a = p + of_nat n" by (simp add: algebra_simps)
  qed
  show ?case
    using Suc.IH n eq by (auto simp add: in_region_def less_Suc_eq)
qed

lemma write_word_lanes:
  fixes p :: "'a::len word" and x :: "'w::len word"
  assumes "lanes x b" and "LENGTH('w) div 8 \<le> 2 ^ LENGTH('a)"
  shows "write_word p x m = fill_mem p (LENGTH('w) div 8) b m"
  using assms(1) write_word_upto [OF assms(2), of p x m]
  by (auto simp add: write_word_def fill_mem_def fun_eq_iff lanes_def in_region_def)

lemma word_loop_eq:
  fixes p :: "'a::len word" and x :: "'w::len word"
  assumes "lanes x b" and "LENGTH('w) div 8 < 2 ^ LENGTH('a)"
  shows "word_loop p x sz st =
     (st\<lparr>mem := fill_mem p (LENGTH('w) div 8 * unat sz) b (mem st),
         trace := trace st @ word_stores p x (unat sz)\<rparr>,
      p + of_nat (LENGTH('w) div 8) * sz, - 1)"
  using assms
proof (induction p x sz st rule: word_loop.induct)
  case (1 p x sz st)
  show ?case
  proof (cases "sz = 0")
    case True
    then show ?thesis by (subst word_loop.simps) simp
  next
    case False
    then have n: "unat sz = Suc (unat (sz - 1))"
      by (simp add: unat_minus_one unat_gt_0)
    have w: "write_word p x (mem st) = fill_mem p (LENGTH('w) div 8) b (mem st)"
      using "1.prems" by (intro write_word_lanes) simp_all
    have f: "fill_mem (p + of_nat (LENGTH('w) div 8)) (LENGTH('w) div 8 * unat (sz - 1)) b
               (fill_mem p (LENGTH('w) div 8) b (mem st))
             = fill_mem p (LENGTH('w) div 8 * Suc (unat (sz - 1))) b (mem st)"
      using "1.prems" by (simp add: fill_mem_append)
    have q: "p + of_nat (LENGTH('w) div 8) + of_nat (LENGTH('w) div 8) * (sz - 1)
             = p + of_nat (LENGTH('w) div 8) * sz"
      by (simp add: algebra_simps)
    have "word_loop p x sz st
          = word_loop (p + of_nat (LENGTH('w) div 8)) x (sz - 1) (store_word p x st)"
      using False by (subst word_loop.simps) simp
    also have "\<dots> = (st\<lparr>mem := fill_mem p (LENGTH('w) div 8 * unat sz) b (mem st),
         trace := trace st @ word_stores p x (unat sz)\<rparr>,
      p + of_nat (LENGTH('w) div 8) * sz, - 1)"
      unfolding "1.IH" [OF False "1.prems"] q n
      by (simp add: store_word_def w f word_stores_Suc)
    finally show ?thesis .
  qed
qed



lemma nat_mod_dec:
  fixes n m :: nat
  assumes "n mod m \<noteq> 0"
  shows "(n - 1) mod m = n mod m - 1"
proof (cases n)
  case 0
  with assms show ?thesis by simp
next
  case (Suc k)
  with assms show ?thesis by (simp add: mod_Suc split: if_splits)
qed

lemma take_bit_dec:
  fixes x :: "'a::len word"
  assumes "take_bit j x \<noteq> 0"
  shows "take_bit j (x - 1) = take_bit j x - 1"
proof -
  have tb: "unat (take_bit j y) = unat y mod 2 ^ j" for y :: "'a word"
    by (subst unsigned_take_bit_eq) (simp add: take_bit_eq_mod)
  have x0: "x \<noteq> 0" using assms by auto
  have m0: "unat x mod 2 ^ j \<noteq> 0"
    using assms unfolding tb [symmetric] by (simp add: unat_eq_zero)
  have "unat (take_bit j (x - 1)) = (unat x - 1) mod 2 ^ j"
    unfolding tb using x0 by (simp add: unat_minus_one)
  also have "\<dots> = unat x mod 2 ^ j - 1"
    using m0 by (rule nat_mod_dec)
  also have "\<dots> = unat (take_bit j x - 1)"
    using assms unfolding tb [symmetric] by (simp add: unat_minus_one)
  finally show ?thesis by (simp add: word_unat_eq_iff)
qed

lemma distance_step:
  fixes pp :: "'a::len word"
  assumes "distance j pp \<noteq> 0"
  shows "distance j (pp + 1) = distance j pp - 1"
  using take_bit_dec [of j "- pp"] assms by (simp add: distance_def)

lemma distance_0_iff:
  fixes pp :: "'a::len word"
  shows "(distance j pp = 0) = (take_bit j pp = 0)"
  by (simp add: distance_def take_bit_eq_0_iff)

lemma misaligned_iff:
  fixes pp :: "'a::len word"
  assumes "j \<le> 32"
  shows "((ucast pp :: 32 word) AND mask j = 0) = (distance j pp = 0)"
proof -
  have "((ucast pp :: 32 word) AND mask j = 0) = (take_bit j (ucast pp :: 32 word) = 0)"
    by (simp add: take_bit_eq_mask)
  also have "\<dots> = (take_bit j pp = 0)"
    using assms by (auto simp add: bit_eq_iff bit_simps dest: bit_imp_le_length)
  finally show ?thesis by (simp add: distance_0_iff)
qed

lemma prologue_loop_eq:
  fixes pp :: "'a::len word"
  assumes "j \<le> 32"
  shows "prologue_loop (mask j) pp xx sz st =
     (if distance j pp \<le> sz
      then (fst (byte_loop pp xx (distance j pp) st), pp + distance j pp, sz - distance j pp)
      else (fst (byte_loop pp xx sz st), pp + sz, - 1))"
proof (induction "mask j :: 32 word" pp xx sz st rule: prologue_loop.induct)
  case (1 pp xx sz st)
  show ?case
  proof (cases "distance j pp = 0")
    case True
    then show ?thesis
      by (subst prologue_loop.simps) (simp add: misaligned_iff assms byte_loop.simps [of _ _ 0])
  next
    case d: False
    show ?thesis
    proof (cases "sz = 0")
      case True
      with d show ?thesis
        by (subst prologue_loop.simps) (simp add: misaligned_iff assms byte_loop.simps [of _ _ 0] word_le_nat_alt unat_gt_0)
    next
      case False
      have le: "(distance j pp - 1 \<le> sz - 1) = (distance j pp \<le> sz)"
        using d False by (simp add: word_le_nat_alt unat_minus_one) (metis One_nat_def Suc_pred diff_le_mono not_less_eq_eq unat_gt_0 unat_eq_zero)
      have na: "(ucast pp :: 32 word) AND mask j \<noteq> 0"
        using d by (simp add: misaligned_iff assms)
      have "prologue_loop (mask j) pp xx sz st
            = prologue_loop (mask j) (pp + 1) xx (sz - 1) (store_byte pp xx st)"
        using na False by (subst prologue_loop.simps) simp
      also have "\<dots> = (if distance j pp \<le> sz
          then (fst (byte_loop pp xx (distance j pp) st), pp + distance j pp, sz - distance j pp)
          else (fst (byte_loop pp xx sz st), pp + sz, - 1))"
        unfolding "1.hyps" [OF na False] distance_step [OF d] le
        using d False
        by (simp add: byte_loop.simps [of pp xx sz] byte_loop.simps [of pp xx "distance j pp"])
      finally show ?thesis .
    qed
  qed
qed



lemma replicated_init:
  assumes "8 \<le> LENGTH('a)"
  shows "replicated 3 (ucast c) (ucast (c AND 0xff :: cint) :: 'a::len word)"
proof -
  have m: "(0xff :: cint) = mask 8" by (simp add: mask_eq_exp_minus_1)
  have "bit (ucast (c AND mask 8 :: cint) :: 'a word) n = (n < 8 \<and> n < LENGTH('a) \<and> bit (ucast c :: byte) (n mod 8))" for n
    using assms by (cases "n < 8") (simp_all add: bit_ucast_iff bit_and_iff bit_mask_iff)
  then show ?thesis unfolding m by (simp add: replicated_def)
qed

lemma mod8_shift:
  fixes n i :: nat
  assumes "3 \<le> i" "2 ^ i \<le> n"
  shows "(n - 2 ^ i) mod 8 = n mod 8"
proof -
  have "(2::nat) ^ (3 + (i - 3)) = 2 ^ 3 * 2 ^ (i - 3)"
    by (rule power_add)
  moreover have "3 + (i - 3) = i" using assms(1) by simp
  ultimately have "(2::nat) ^ i = 8 * 2 ^ (i - 3)" by simp
  then have d: "(2::nat) ^ i mod 8 = 0" by simp
  have "n mod 8 = ((n - 2 ^ i) + 2 ^ i) mod 8" using assms(2) by simp
  also have "\<dots> = (n - 2 ^ i) mod 8"
    using d by (metis add.right_neutral mod_add_right_eq)
  finally show ?thesis by simp
qed

lemma replicated_step:
  fixes x :: "'a::len word"
  assumes "replicated i b x" "3 \<le> i"
  shows "replicated (Suc i) b (x OR push_bit (2 ^ i) x)"
proof -
  have r: "bit x n = (n < 2 ^ i \<and> n < LENGTH('a) \<and> bit b (n mod 8))" for n
    using assms(1) by (simp add: replicated_def)
  have "bit (x OR push_bit (2 ^ i) x) n = (n < 2 ^ Suc i \<and> n < LENGTH('a) \<and> bit b (n mod 8))" for n
  proof (cases "n < 2 ^ i")
    case True
    then show ?thesis by (simp add: bit_or_iff bit_push_bit_iff r)
  next
    case False
    then have le: "2 ^ i \<le> n" by simp
    have "(n - 2 ^ i < 2 ^ i) = (n < 2 ^ Suc i)" using le by auto
    then show ?thesis
      using False le mod8_shift [OF assms(2) le]
      by (auto simp add: bit_or_iff bit_push_bit_iff r)
  qed
  then show ?thesis by (simp add: replicated_def)
qed

lemma replicated_lanes:
  fixes x :: "'a::len word"
  assumes "replicated k b x" "LENGTH('a) \<le> 2 ^ k"
  shows "lanes x b"
proof -
  have r: "bit x n = (n < LENGTH('a) \<and> bit b (n mod 8))" for n
  proof -
    have "bit x n = (n < 2 ^ k \<and> n < LENGTH('a) \<and> bit b (n mod 8))"
      using assms(1) unfolding replicated_def by (rule spec)
    moreover have "n < LENGTH('a) \<Longrightarrow> n < 2 ^ k"
      using assms(2) by linarith
    ultimately show ?thesis by blast
  qed
  have "(ucast (drop_bit (8 * j) x) :: byte) = b" if "j < LENGTH('a) div 8" for j
  proof (rule bit_eqI)
    fix n
    assume "possible_bit TYPE(byte) n"
    then have n: "n < 8" by (simp add: possible_bit_def)
    then have "8 * j + n < LENGTH('a)" using that by auto
    moreover have "(8 * j + n) mod 8 = n" using n by simp
    ultimately show "bit (ucast (drop_bit (8 * j) x) :: byte) n = bit b n"
      using n by (simp add: bit_ucast_iff bit_drop_bit_eq r)
  qed
  then show ?thesis by (simp add: lanes_def)
qed

lemma pattern_32_lanes: "lanes (pattern_32 c) (ucast c)"
proof -
  have p8: "(2::nat) ^ 3 = 8" and p16: "(2::nat) ^ Suc 3 = 16" by simp_all
  have r0: "replicated 3 (ucast c) (c AND 0xff)"
    using replicated_init [where 'a = 32, of c] by simp
  have r1: "replicated (Suc 3) (ucast c) ((c AND 0xff) OR push_bit (2 ^ 3) (c AND 0xff))"
    using r0 by (rule replicated_step) simp
  have r2: "replicated (Suc (Suc 3)) (ucast c)
      (((c AND 0xff) OR push_bit (2 ^ 3) (c AND 0xff)) OR push_bit (2 ^ Suc 3) ((c AND 0xff) OR push_bit (2 ^ 3) (c AND 0xff)))"
    using r1 by (rule replicated_step) simp
  have "replicated (Suc (Suc 3)) (ucast c) (pattern_32 c)"
    unfolding pattern_32_def Let_def by (rule r2 [unfolded p8 p16])
  then show ?thesis by (rule replicated_lanes) simp
qed

lemma pattern_loop_eq:
  fixes x :: "'a::len word"
  assumes "replicated i b x" "3 \<le> i" "i \<le> k"
  shows "\<exists>x'. pattern_loop (2 ^ k) i x = (k, x') \<and> replicated k b x'"
  using assms
proof (induction "k - i" arbitrary: i x)
  case 0
  then have "i = k" by simp
  with 0 show ?case by (subst pattern_loop.simps) simp
next
  case (Suc d)
  then have lt: "i < k" by simp
  then have c: "(2::nat) ^ i < 2 ^ k" by simp
  have "replicated (Suc i) b (x OR push_bit (2 ^ i) x)"
    using Suc.prems(1,2) by (rule replicated_step)
  moreover have "d = k - Suc i" using Suc.hyps(2) by simp
  ultimately obtain x' where "pattern_loop (2 ^ k) (Suc i) (x OR push_bit (2 ^ i) x) = (k, x')" "replicated k b x'"
    using Suc.hyps(1) [of "Suc i" "x OR push_bit (2 ^ i) x"] Suc.prems lt by auto
  then show ?case
    using c by (subst pattern_loop.simps) simp
qed



lemma ucast_and_ff: "(ucast (c AND 0xff :: cint) :: byte) = ucast c"
proof -
  have m: "(0xff :: cint) = mask 8" by (simp add: mask_eq_exp_minus_1)
  show ?thesis unfolding m
    by (rule bit_eqI) (auto simp add: bit_ucast_iff bit_and_iff bit_mask_iff possible_bit_def)
qed

lemma wordwise_32_unaligned_three_phase:
  "wordwise_32_unaligned_memset s c sz st = three_phase 2 (pattern_32 c) (ucast c) s sz st"
proof -
  have "(3 :: 32 word) = mask 2" and "(3 :: 'a word) = mask 2"
    by (simp_all add: mask_eq_exp_minus_1)
  then show ?thesis
    by (simp add: wordwise_32_unaligned_memset_def three_phase_def ucast_and_ff Let_def split_def)
qed



lemma three_phase_after:
  fixes s :: "'a::len word" and x :: "'w::len word"
  assumes pl: "prologue_loop (mask j) s b sz st = (st1, s + of_nat n1, sz')"
    and m1: "mem st1 = fill_mem s n1 b (mem st)"
    and t1: "trace st1 = trace st @ byte_stores s b n1"
    and more: "machine.more st1 = machine.more st"
    and lanes: "lanes x b"
    and W: "LENGTH('w) div 8 = 2 ^ j"
    and jw: "j < LENGTH('a)"
    and bound: "n1 + 2 ^ j * (unat sz' div 2 ^ j) < 2 ^ LENGTH('a)"
  shows "three_phase j x b s sz st =
     (st\<lparr>mem := fill_mem s (n1 + unat sz') b (mem st),
         trace := trace st @ byte_stores s b n1 @ word_stores (s + of_nat n1) x (unat sz' div 2 ^ j)
                   @ byte_stores (s + of_nat n1 + 2 ^ j * drop_bit j sz') b (unat sz' mod 2 ^ j)\<rparr>, s)"
proof -
  have Wlt: "LENGTH('w) div 8 < 2 ^ LENGTH('a)" using W jw by simp
  have n2: "unat (drop_bit j sz') = unat sz' div 2 ^ j"
    by (subst unat_drop_bit_eq) (simp add: drop_bit_eq_div)
  have n3: "unat (sz' AND mask j) = unat sz' mod 2 ^ j"
    by (subst take_bit_eq_mask [symmetric], subst unsigned_take_bit_eq) (simp add: take_bit_eq_mod)
  have n1lt: "n1 < 2 ^ LENGTH('a)" using bound by simp
  define n2 where "n2 = unat sz' div 2 ^ j"
  define n3 where "n3 = unat sz' mod 2 ^ j"
  define p1 where "p1 = s + of_nat n1"
  define p2 where "p2 = p1 + of_nat (LENGTH('w) div 8) * drop_bit j sz'"
  define st2 where "st2 = st1\<lparr>mem := fill_mem p1 (LENGTH('w) div 8 * unat (drop_bit j sz')) b (mem st1),
         trace := trace st1 @ word_stores p1 x (unat (drop_bit j sz'))\<rparr>"
  define st3 where "st3 = st2\<lparr>mem := fill_mem p2 (unat (sz' AND mask j)) b (mem st2),
         trace := trace st2 @ byte_stores p2 b (unat (sz' AND mask j))\<rparr>"
  have wl: "word_loop p1 x (drop_bit j sz') st1 = (st2, p2, - 1)"
    unfolding st2_def p2_def by (rule word_loop_eq [OF lanes Wlt])
  have bl: "byte_loop p2 b (sz' AND mask j) st2 = (st3, p2 + (sz' AND mask j), - 1)"
    unfolding st3_def by (rule byte_loop_eq)
  have run: "three_phase j x b s sz st = (st3, s)"
    unfolding three_phase_def pl p1_def [symmetric] Let_def prod.case wl bl ..
  have p2': "p2 = s + of_nat (n1 + 2 ^ j * n2)"
    unfolding p2_def p1_def W n2_def n2 [symmetric] by simp
  have f1: "fill_mem p1 (2 ^ j * n2) b (fill_mem s n1 b (mem st))
      = fill_mem s (n1 + 2 ^ j * n2) b (mem st)"
    unfolding p1_def using n1lt by (rule fill_mem_append)
  have f2: "fill_mem p2 n3 b (fill_mem s (n1 + 2 ^ j * n2) b (mem st))
      = fill_mem s (n1 + 2 ^ j * n2 + n3) b (mem st)"
    unfolding p2' using bound [folded n2_def] by (rule fill_mem_append)
  have tot: "n1 + 2 ^ j * n2 + n3 = n1 + unat sz'"
    unfolding n2_def n3_def by simp
  have m2: "mem st2 = fill_mem s (n1 + 2 ^ j * n2) b (mem st)"
    unfolding st2_def n2 W m1 n2_def [symmetric] using f1 by simp
  have m3: "mem st3 = fill_mem s (n1 + unat sz') b (mem st)"
    unfolding st3_def n3 n3_def [symmetric] using f2 m2 tot by simp
  have t3: "trace st3 = trace st @ byte_stores s b n1 @ word_stores p1 x n2 @ byte_stores p2 b n3"
    unfolding st3_def st2_def n2 n3 n2_def [symmetric] n3_def [symmetric] t1 by simp
  have mo: "machine.more st3 = machine.more st"
    unfolding st3_def st2_def using more by simp
  have "st3 = st\<lparr>mem := fill_mem s (n1 + unat sz') b (mem st),
         trace := trace st @ byte_stores s b n1 @ word_stores p1 x n2 @ byte_stores p2 b n3\<rparr>"
    by (rule machine.equality) (simp_all add: m3 t3 mo)
  then show ?thesis
    unfolding run p2_def p1_def n2_def n3_def W by simp
qed

lemma distance_less:
  fixes s :: "'a::len word"
  shows "unat (distance j s) < 2 ^ j"
  unfolding distance_def
  by (subst unsigned_take_bit_eq) (simp add: take_bit_eq_mod)

lemma all_ones_div:
  fixes j w :: nat
  assumes "j \<le> w"
  shows "2 ^ j * ((2 ^ w - 1) div 2 ^ j) = (2 ^ w - 2 ^ j :: nat)"
proof -
  define q :: nat where "q = 2 ^ (w - j) - 1"
  define r :: nat where "r = 2 ^ j - 1"
  have "(2::nat) ^ (j + (w - j)) = 2 ^ j * 2 ^ (w - j)" by (rule power_add)
  moreover have "j + (w - j) = w" using assms by simp
  ultimately have e: "(2::nat) ^ w = 2 ^ j * 2 ^ (w - j)" by simp
  have q1: "2 ^ (w - j) = q + 1" unfolding q_def by simp
  have r1: "2 ^ j = r + 1" unfolding r_def by simp
  have rl: "r < 2 ^ j" unfolding r_def by simp
  have "(2::nat) ^ w - 1 = 2 ^ j * q + r"
    unfolding e q1 by (simp add: r1)
  moreover have "(2 ^ j * q + r) div 2 ^ j = q + r div 2 ^ j"
    by (rule div_mult_self4) simp
  ultimately have "((2::nat) ^ w - 1) div 2 ^ j = q" using rl by simp
  then show ?thesis unfolding e q1 by simp
qed

lemma three_phase_normal:
  fixes s :: "'a::len word" and x :: "'w::len word"
  assumes lanes: "lanes x b"
    and W: "LENGTH('w) div 8 = 2 ^ j"
    and jw: "j < LENGTH('a)"
    and j32: "j \<le> 32"
    and d: "distance j s \<le> sz"
  shows "three_phase j x b s sz st =
     (st\<lparr>mem := fill_mem s (unat sz) b (mem st),
         trace := trace st @ byte_stores s b (unat (distance j s))
                   @ word_stores (s + distance j s) x (unat (sz - distance j s) div 2 ^ j)
                   @ byte_stores (s + distance j s + 2 ^ j * drop_bit j (sz - distance j s)) b
                       (unat (sz - distance j s) mod 2 ^ j)\<rparr>, s)"
proof -
  define n1 where "n1 = unat (distance j s)"
  define st1 where "st1 = fst (byte_loop s b (distance j s) st)"
  have on: "of_nat n1 = distance j s" unfolding n1_def by simp
  have pl: "prologue_loop (mask j) s b sz st = (st1, s + of_nat n1, sz - distance j s)"
    unfolding on st1_def using d by (simp add: prologue_loop_eq [OF j32])
  have u: "unat (sz - distance j s) = unat sz - n1"
    unfolding n1_def using d by (rule unat_sub)
  have le: "n1 \<le> unat sz" unfolding n1_def using d by (simp add: word_le_nat_alt)
  have "2 ^ j * ((unat sz - n1) div 2 ^ j) \<le> unat sz - n1" by simp
  then have "n1 + 2 ^ j * ((unat sz - n1) div 2 ^ j) \<le> unat sz" using le by linarith
  then have bound: "n1 + 2 ^ j * (unat (sz - distance j s) div 2 ^ j) < 2 ^ LENGTH('a)"
    unfolding u using unsigned_less [of sz] by (rule le_less_trans)
  have tot: "n1 + unat (sz - distance j s) = unat sz" unfolding u using le by simp
  show ?thesis
    using three_phase_after [OF pl _ _ _ lanes W jw bound]
    unfolding st1_def byte_loop_eq on tot n1_def [symmetric] by simp
qed

lemma three_phase_wrap:
  fixes s :: "'a::len word" and x :: "'w::len word"
  assumes lanes: "lanes x b"
    and W: "LENGTH('w) div 8 = 2 ^ j"
    and jw: "j < LENGTH('a)"
    and j32: "j \<le> 32"
    and d: "sz < distance j s"
  shows "three_phase j x b s sz st =
     (st\<lparr>mem := fill_mem s (unat sz + (2 ^ LENGTH('a) - 1)) b (mem st),
         trace := trace st @ byte_stores s b (unat sz)
                   @ word_stores (s + sz) x ((2 ^ LENGTH('a) - 1) div 2 ^ j)
                   @ byte_stores (s + sz + 2 ^ j * drop_bit j (- 1)) b
                       ((2 ^ LENGTH('a) - 1) mod 2 ^ j)\<rparr>, s)"
proof -
  define n1 where "n1 = unat sz"
  define st1 where "st1 = fst (byte_loop s b sz st)"
  have on: "of_nat n1 = sz" unfolding n1_def by simp
  have pl: "prologue_loop (mask j) s b sz st = (st1, s + of_nat n1, - 1)"
    unfolding on st1_def using d by (simp add: prologue_loop_eq [OF j32] not_le [symmetric])
  have u: "unat (- 1 :: 'a word) = 2 ^ LENGTH('a) - 1"
    by (simp add: unsigned_minus_1_eq_mask mask_eq_exp_minus_1)
  have "n1 < unat (distance j s)" unfolding n1_def using d by (simp add: word_less_nat_alt)
  then have lt: "n1 < 2 ^ j" using distance_less [of j s] by simp
  have jle: "j \<le> LENGTH('a)" using jw by simp
  have "(2::nat) ^ j \<le> 2 ^ LENGTH('a)" using jle by simp
  then have bound: "n1 + 2 ^ j * (unat (- 1 :: 'a word) div 2 ^ j) < 2 ^ LENGTH('a)"
    unfolding u all_ones_div [OF jle] using lt by linarith
  show ?thesis
    using three_phase_after [OF pl _ _ _ lanes W jw bound]
    unfolding st1_def byte_loop_eq on u n1_def [symmetric] by simp
qed



lemma of_nat_mask: "(of_nat (2 ^ j - 1) :: 'b::len word) = mask j"
  by (simp add: mask_eq_exp_minus_1)

lemma pattern_loop_word:
  assumes "LENGTH('a::len) = 2 ^ k" "3 \<le> k"
  shows "\<exists>x :: 'a word. pattern_loop LENGTH('a) 3 (ucast (c AND 0xff :: cint)) = (k, x) \<and> lanes x (ucast c)"
proof -
  have "(2::nat) ^ 3 \<le> 2 ^ k" using assms(2) by (rule power_increasing) simp
  then have "8 \<le> LENGTH('a)" using assms(1) by simp
  then have "replicated 3 (ucast c) (ucast (c AND 0xff :: cint) :: 'a word)"
    by (rule replicated_init)
  then obtain x :: "'a word" where x: "pattern_loop (2 ^ k) 3 (ucast (c AND 0xff :: cint)) = (k, x)" "replicated k (ucast c) x"
    using pattern_loop_eq [of 3 "ucast c" "ucast (c AND 0xff :: cint) :: 'a word" k] assms(2) by auto
  have "lanes x (ucast c)" using x(2) by (rule replicated_lanes) (simp add: assms(1))
  with x(1) show ?thesis unfolding assms(1) by blast
qed

lemma bytes_per_word:
  assumes "LENGTH('a::len) = 2 ^ k" "3 \<le> k"
  shows "LENGTH('a) div 8 = 2 ^ (k - 3)"
proof -
  have "(2::nat) ^ (3 + (k - 3)) = 2 ^ 3 * 2 ^ (k - 3)" by (rule power_add)
  moreover have "3 + (k - 3) = k" using assms(2) by simp
  ultimately have "(2::nat) ^ k = 8 * 2 ^ (k - 3)" by simp
  then show ?thesis unfolding assms(1) by simp
qed

lemma shift_less_length:
  assumes "LENGTH('a::len) = 2 ^ k" "3 \<le> k"
  shows "k - 3 < LENGTH('a)"
proof -
  have "k < 2 ^ k" by (rule less_exp)
  then have "k - 3 < 2 ^ k" by (rule less_imp_diff_less)
  then show ?thesis unfolding assms(1) .
qed

lemma wordwise_unaligned_three_phase:
  fixes s :: "'a::len word"
  assumes "pattern_loop wordsize 3 (ucast (c AND 0xff :: cint)) = (k, x)"
  shows "wordwise_unaligned_memset wordsize s c sz st = three_phase (k - 3) x (ucast c) s sz st"
  by (simp only: wordwise_unaligned_memset_def three_phase_def Let_def assms prod.case
      of_nat_mask ucast_and_ff)

lemma bytewise_memset_eq:
  "bytewise_memset s c sz st =
     (st\<lparr>mem := fill_mem s (unat sz) (ucast c) (mem st),
         trace := trace st @ byte_stores s (ucast c) (unat sz)\<rparr>, s)"
  by (simp add: bytewise_memset_def byte_loop_eq ucast_and_ff Let_def)

lemma multiple_iff:
  fixes sz :: "'a::len word"
  shows "(sz AND mask j = 0) = (2 ^ j dvd unat sz)"
proof -
  have "unat (sz AND mask j) = unat sz mod 2 ^ j"
    by (subst take_bit_eq_mask [symmetric], subst unsigned_take_bit_eq) (simp add: take_bit_eq_mod)
  then show ?thesis by (metis unat_eq_zero mod_eq_0_iff_dvd)
qed

lemma aligned_fill:
  fixes s :: "'a::len word" and x :: "'w::len word"
  assumes lanes: "lanes x b"
    and W: "LENGTH('w) div 8 = 2 ^ j"
    and jw: "j < LENGTH('a)"
    and al: "2 ^ j dvd unat sz"
  shows "word_loop s x (drop_bit j sz) st =
     (st\<lparr>mem := fill_mem s (unat sz) b (mem st),
         trace := trace st @ word_stores s x (unat sz div 2 ^ j)\<rparr>, s + sz, - 1)"
proof -
  have Wlt: "LENGTH('w) div 8 < 2 ^ LENGTH('a)" using W jw by simp
  have n: "unat (drop_bit j sz) = unat sz div 2 ^ j"
    by (subst unat_drop_bit_eq) (simp add: drop_bit_eq_div)
  have t: "2 ^ j * (unat sz div 2 ^ j) = unat sz" using al by simp
  have "(2 ^ j :: 'a word) * drop_bit j sz = of_nat (2 ^ j * (unat sz div 2 ^ j))"
    unfolding n [symmetric] by simp
  then have p: "(2 ^ j :: 'a word) * drop_bit j sz = sz" unfolding t by simp
  show ?thesis
    unfolding word_loop_eq [OF lanes Wlt] W n t using p by simp
qed

lemma wordwise_32_memset_eq:
  fixes s :: "'a::len word"
  assumes "2 < LENGTH('a)" "4 dvd unat sz"
  shows "wordwise_32_memset s c sz st =
     Some (st\<lparr>mem := fill_mem s (unat sz) (ucast c) (mem st),
         trace := trace st @ word_stores s (pattern_32 c) (unat sz div 4)\<rparr>, s)"
proof -
  have m: "(3 :: 'a word) = mask 2" by (simp add: mask_eq_exp_minus_1)
  have z: "sz AND 3 = 0" unfolding m multiple_iff using assms(2) by simp
  have "word_loop s (pattern_32 c) (drop_bit 2 sz) st =
     (st\<lparr>mem := fill_mem s (unat sz) (ucast c) (mem st),
         trace := trace st @ word_stores s (pattern_32 c) (unat sz div 2 ^ 2)\<rparr>, s + sz, - 1)"
    using pattern_32_lanes _ assms(1) by (rule aligned_fill) (simp_all add: assms(2))
  then show ?thesis
    by (simp add: wordwise_32_memset_def z Let_def)
qed

lemma wordwise_32_memset_None:
  fixes s :: "'a::len word"
  shows "(wordwise_32_memset s c sz st = None) = (\<not> 4 dvd unat sz)"
proof -
  have m: "(3 :: 'a word) = mask 2" by (simp add: mask_eq_exp_minus_1)
  have z: "(sz AND 3 = 0) = (4 dvd unat sz)" unfolding m multiple_iff by simp
  show ?thesis
    by (simp add: wordwise_32_memset_def z Let_def split_def)
qed

lemma wordwise_memset_eq:
  fixes s :: "'a::len word"
  assumes L: "LENGTH('a) = 2 ^ k" and k: "3 \<le> k"
    and al: "LENGTH('a) div 8 dvd unat sz"
  shows "\<exists>x. lanes x (ucast c) \<and> wordwise_memset LENGTH('a) s c sz st =
     Some (st\<lparr>mem := fill_mem s (unat sz) (ucast c) (mem st),
         trace := trace st @ word_stores s x (unat sz div (LENGTH('a) div 8))\<rparr>, s)"
proof -
  obtain x :: "'a word" where x: "pattern_loop LENGTH('a) 3 (ucast (c AND 0xff :: cint)) = (k, x)"
      and lanes: "lanes x (ucast c)"
    using pattern_loop_word [OF L k] by blast
  have W: "LENGTH('a) div 8 = 2 ^ (k - 3)" using L k by (rule bytes_per_word)
  have jw: "k - 3 < LENGTH('a)" using L k by (rule shift_less_length)
  have al': "2 ^ (k - 3) dvd unat sz" using al unfolding W .
  have z: "sz AND of_nat (2 ^ (k - 3) - 1) = 0" unfolding of_nat_mask multiple_iff by (rule al')
  have "word_loop s x (drop_bit (k - 3) sz) st =
     (st\<lparr>mem := fill_mem s (unat sz) (ucast c) (mem st),
         trace := trace st @ word_stores s x (unat sz div 2 ^ (k - 3))\<rparr>, s + sz, - 1)"
    using lanes W jw al' by (rule aligned_fill)
  then have "wordwise_memset LENGTH('a) s c sz st =
     Some (st\<lparr>mem := fill_mem s (unat sz) (ucast c) (mem st),
         trace := trace st @ word_stores s x (unat sz div (LENGTH('a) div 8))\<rparr>, s)"
    unfolding W using z by (simp add: wordwise_memset_def x Let_def)
  with lanes show ?thesis by blast
qed

section \<open>The unaligned fillers in full\<close>

lemma three_phase_mem:
  fixes s :: "'a::len word" and x :: "'w::len word"
  assumes "lanes x b" "LENGTH('w) div 8 = 2 ^ j" "j < LENGTH('a)" "j \<le> 32"
  shows "mem (fst (three_phase j x b s sz st)) =
           fill_mem s (if distance j s \<le> sz then unat sz else unat sz + (2 ^ LENGTH('a) - 1)) b (mem st)"
    and "snd (three_phase j x b s sz st) = s"
  using three_phase_normal [OF assms, of s sz st] three_phase_wrap [OF assms, of sz s st]
  by (cases "distance j s \<le> sz"; simp)+

lemma generic_three_phase:
  fixes s :: "'a::len word"
  assumes L: "LENGTH('a) = 2 ^ k" and k: "3 \<le> k" "k \<le> 30"
  obtains x :: "'a word" where "lanes x (ucast c)"
    "pattern_loop LENGTH('a) 3 (ucast (c AND 0xff :: cint)) = (k, x)"
    "LENGTH('a) div 8 = 2 ^ (k - 3)" "k - 3 < LENGTH('a)" "k - 3 \<le> 32"
    "\<And>s sz st. wordwise_unaligned_memset LENGTH('a) s c sz st = three_phase (k - 3) x (ucast c) s sz st"
proof -
  obtain x :: "'a word" where x: "pattern_loop LENGTH('a) 3 (ucast (c AND 0xff :: cint)) = (k, x)"
      and lanes: "lanes x (ucast c)"
    using pattern_loop_word [OF L k(1)] by blast
  show ?thesis
  proof (rule that [OF lanes x])
    show "LENGTH('a) div 8 = 2 ^ (k - 3)" using L k(1) by (rule bytes_per_word)
    show "k - 3 < LENGTH('a)" using L k(1) by (rule shift_less_length)
    show "k - 3 \<le> 32" using k(2) by simp
    show "wordwise_unaligned_memset LENGTH('a) s c sz st = three_phase (k - 3) x (ucast c) s sz st"
      for s sz st using x by (rule wordwise_unaligned_three_phase)
  qed
qed

lemma word32_bytes: "LENGTH(32) div 8 = 2 ^ 2" by simp

lemma length_byte_stores [simp]: "length (byte_stores p x n) = n"
  by (simp add: byte_stores_def)

lemma length_word_stores [simp]: "length (word_stores p x n) = n"
  by (simp add: word_stores_def)

lemma filter_word_byte_stores [simp]: "filter is_word_store (byte_stores p x n) = []"
  by (simp add: byte_stores_def)

lemma filter_word_word_stores [simp]: "filter is_word_store (word_stores p x n) = word_stores p x n"
  by (simp add: word_stores_def)

lemma filter_byte_byte_stores [simp]: "filter is_byte_store (byte_stores p x n) = byte_stores p x n"
  by (simp add: byte_stores_def)

lemma filter_byte_word_stores [simp]: "filter is_byte_store (word_stores p x n) = []"
  by (simp add: word_stores_def)

lemma distance_aligned: "take_bit j (s + distance j s) = 0"
proof -
  have "push_bit j (drop_bit j (- s)) + take_bit j (- s) = - s"
    by (rule bits_ident)
  then have "s + take_bit j (- s) = - push_bit j (drop_bit j (- s))"
    by (metis add.commute add.inverse_inverse add_diff_cancel_left' uminus_add_conv_diff)
  then have "2 ^ j dvd s + distance j s"
    unfolding distance_def by (simp add: push_bit_eq_mult)
  then show ?thesis by (simp add: take_bit_eq_0_iff)
qed

lemma all_ones_mod:
  fixes j w :: nat
  assumes "j \<le> w"
  shows "(2 ^ w - 1) mod 2 ^ j = (2 ^ j - 1 :: nat)"
proof -
  have "(2::nat) ^ j \<le> 2 ^ w" using assms by simp
  moreover have "(2 ^ w - 1) mod 2 ^ j = (2 ^ w - 1) - 2 ^ j * ((2 ^ w - 1) div 2 ^ j :: nat)"
    by (simp add: minus_mult_div_eq_mod)
  ultimately show ?thesis unfolding all_ones_div [OF assms] by simp
qed

lemma all_ones_div_pos:
  fixes j w :: nat
  assumes "j < w"
  shows "0 < (2 ^ w - 1) div (2 ^ j :: nat)"
proof -
  have "(2::nat) ^ j < 2 ^ w" using assms by simp
  then have "(2::nat) ^ j \<le> 2 ^ w - 1" by arith
  then show ?thesis by (simp add: div_greater_zero_iff)
qed

lemma three_phase_wrap_trace:
  fixes s :: "'a::len word" and x :: "'w::len word"
  assumes "lanes x b" "LENGTH('w) div 8 = 2 ^ j" "j < LENGTH('a)" "j \<le> 32" "sz < distance j s"
  shows "snd (prologue_loop (mask j) s b sz st) = (s + sz, - 1)"
    and "trace (fst (three_phase j x b s sz st)) =
           trace st @ byte_stores s b (unat sz)
             @ word_stores (s + sz) x ((2 ^ LENGTH('a) - 1) div 2 ^ j)
             @ byte_stores (s + sz + 2 ^ j * drop_bit j (- 1)) b (2 ^ j - 1)"
proof -
  show "snd (prologue_loop (mask j) s b sz st) = (s + sz, - 1)"
    using assms(5) by (simp add: prologue_loop_eq [OF assms(4)] not_le [symmetric])
  have "j \<le> LENGTH('a)" using assms(3) by simp
  then have m: "(2 ^ LENGTH('a) - 1) mod 2 ^ j = (2 ^ j - 1 :: nat)" by (rule all_ones_mod)
  show "trace (fst (three_phase j x b s sz st)) =
           trace st @ byte_stores s b (unat sz)
             @ word_stores (s + sz) x ((2 ^ LENGTH('a) - 1) div 2 ^ j)
             @ byte_stores (s + sz + 2 ^ j * drop_bit j (- 1)) b (2 ^ j - 1)"
    unfolding three_phase_wrap [OF assms] m by simp
qed

lemma wrap32:
  fixes s sz :: "32 word"
  assumes "sz < distance 2 s"
  shows "mem (fst (wordwise_32_unaligned_memset s c sz st)) =
           fill_mem s (unat sz + 4294967295) (ucast c) (mem st)"
    and "trace (fst (wordwise_32_unaligned_memset s c sz st)) =
           trace st @ byte_stores s (ucast c) (unat sz)
             @ word_stores (s + sz) (pattern_32 c) 1073741823
             @ byte_stores (s + sz + 4 * drop_bit 2 (- 1)) (ucast c) 3"
proof -
  have w: "2 < LENGTH(32)" by simp
  show "mem (fst (wordwise_32_unaligned_memset s c sz st)) =
           fill_mem s (unat sz + 4294967295) (ucast c) (mem st)"
    unfolding wordwise_32_unaligned_three_phase
      three_phase_wrap [OF pattern_32_lanes word32_bytes w _ assms, simplified]
    by simp
  show "trace (fst (wordwise_32_unaligned_memset s c sz st)) =
           trace st @ byte_stores s (ucast c) (unat sz)
             @ word_stores (s + sz) (pattern_32 c) 1073741823
             @ byte_stores (s + sz + 4 * drop_bit 2 (- 1)) (ucast c) 3"
    unfolding wordwise_32_unaligned_three_phase
    using three_phase_wrap_trace(2) [OF pattern_32_lanes word32_bytes w _ assms, of c st]
    by simp
qed

lemma wrap_generic32:
  fixes s sz :: "32 word"
  assumes "sz < distance 2 s"
  shows "mem (fst (wordwise_unaligned_memset 32 s c sz st)) =
           fill_mem s (unat sz + 4294967295) (ucast c) (mem st)"
    and "\<exists>x. trace (fst (wordwise_unaligned_memset 32 s c sz st)) =
           trace st @ byte_stores s (ucast c) (unat sz)
             @ word_stores (s + sz) x 1073741823
             @ byte_stores (s + sz + 4 * drop_bit 2 (- 1)) (ucast c) 3"
proof -
  have L: "LENGTH(32) = 2 ^ 5" by simp
  obtain x :: "32 word" where x: "lanes x (ucast c)"
      and W: "LENGTH(32) div 8 = 2 ^ (5 - 3)" and jw: "5 - 3 < LENGTH(32)" and j32: "(5::nat) - 3 \<le> 32"
      and run: "\<And>s sz st. wordwise_unaligned_memset LENGTH(32) s c sz st = three_phase (5 - 3) x (ucast c) s sz st"
  proof -
    have k: "(3 :: nat) \<le> 5" "(5 :: nat) \<le> 30" by simp_all
    show ?thesis using that generic_three_phase [OF L k, of c] by metis
  qed
  have d: "sz < distance (5 - 3) s" using assms by simp
  have r: "wordwise_unaligned_memset 32 s c sz st = three_phase (5 - 3) x (ucast c) s sz st"
    using run [of s sz st] by simp
  show "mem (fst (wordwise_unaligned_memset 32 s c sz st)) =
           fill_mem s (unat sz + 4294967295) (ucast c) (mem st)"
    unfolding r three_phase_wrap [OF x W jw j32 d] by simp
  have "trace (fst (wordwise_unaligned_memset 32 s c sz st)) =
           trace st @ byte_stores s (ucast c) (unat sz)
             @ word_stores (s + sz) x 1073741823
             @ byte_stores (s + sz + 4 * drop_bit 2 (- 1)) (ucast c) 3"
    unfolding r using three_phase_wrap_trace(2) [OF x W jw j32 d, of st] by simp
  then show "\<exists>x. trace (fst (wordwise_unaligned_memset 32 s c sz st)) =
           trace st @ byte_stores s (ucast c) (unat sz)
             @ word_stores (s + sz) x 1073741823
             @ byte_stores (s + sz + 4 * drop_bit 2 (- 1)) (ucast c) 3" ..
qed

lemma short_of_boundary: "(0 :: 32 word) < distance 2 1" "(1 :: 32 word) < distance 2 1"
  "(1 :: 32 word) < distance 2 0x1002"
  by (simp_all add: distance_def mask_eq_exp_minus_1)

lemma unaligned_exact:
  fixes s :: "'a::len word"
  shows "2 < LENGTH('a) \<Longrightarrow> distance 2 s \<le> sz \<Longrightarrow>
           mem (fst (wordwise_32_unaligned_memset s c sz st32)) = fill_mem s (unat sz) (ucast c) (mem st32)"
    and "LENGTH('a) = 2 ^ k \<Longrightarrow> 3 \<le> k \<Longrightarrow> k \<le> 30 \<Longrightarrow> distance (k - 3) s \<le> sz \<Longrightarrow>
           mem (fst (wordwise_unaligned_memset LENGTH('a) s c sz stw)) = fill_mem s (unat sz) (ucast c) (mem stw)"
proof -
  show "mem (fst (wordwise_32_unaligned_memset s c sz st32)) = fill_mem s (unat sz) (ucast c) (mem st32)"
    if "2 < LENGTH('a)" "distance 2 s \<le> sz"
    unfolding wordwise_32_unaligned_three_phase
      three_phase_mem(1) [OF pattern_32_lanes word32_bytes that(1), simplified]
    using that(2) by simp
  show "mem (fst (wordwise_unaligned_memset LENGTH('a) s c sz stw)) = fill_mem s (unat sz) (ucast c) (mem stw)"
    if L: "LENGTH('a) = 2 ^ k" and k: "3 \<le> k" "k \<le> 30" and d: "distance (k - 3) s \<le> sz"
  proof -
    obtain x :: "'a word" where x: "lanes x (ucast c)"
      "LENGTH('a) div 8 = 2 ^ (k - 3)" "k - 3 < LENGTH('a)" "k - 3 \<le> 32"
      and run: "\<And>s sz st. wordwise_unaligned_memset LENGTH('a) s c sz st = three_phase (k - 3) x (ucast c) s sz st"
      using generic_three_phase [OF L k, of c] by metis
    show ?thesis unfolding run three_phase_mem(1) [OF x] using d by simp
  qed
qed

lemma boundary_scenario:
  fixes buffer :: "32 word"
  shows "mem (fst (wordwise_unaligned_memset 32 (buffer + 1) 0x41 4094 st)) buffer = mem st buffer"
    and "mem (fst (wordwise_unaligned_memset 32 (buffer + 1) 0x41 4094 st)) (buffer + 4095) = mem st (buffer + 4095)"
    and "1 \<le> i \<Longrightarrow> i \<le> 4094 \<Longrightarrow>
           mem (fst (wordwise_unaligned_memset 32 (buffer + 1) 0x41 4094 st)) (buffer + of_nat i) = 0x41"
proof -
  have "unat (distance (5 - 3) (buffer + 1)) < 2 ^ (5 - 3)" by (rule distance_less)
  then have d: "distance (5 - 3) (buffer + 1) \<le> 4094" by (simp add: word_le_nat_alt)
  have m: "mem (fst (wordwise_unaligned_memset 32 (buffer + 1) 0x41 4094 st))
      = fill_mem (buffer + 1) 4094 0x41 (mem st)"
    using unaligned_exact(2) [where 'a = 32 and k = 5, OF _ _ _ d, of "0x41" st] by simp
  show "mem (fst (wordwise_unaligned_memset 32 (buffer + 1) 0x41 4094 st)) buffer = mem st buffer"
    unfolding m by (simp add: fill_mem_def in_region_def unsigned_minus_1_eq_mask mask_eq_exp_minus_1)
  show "mem (fst (wordwise_unaligned_memset 32 (buffer + 1) 0x41 4094 st)) (buffer + 4095) = mem st (buffer + 4095)"
    unfolding m by (simp add: fill_mem_def in_region_def)
  show "mem (fst (wordwise_unaligned_memset 32 (buffer + 1) 0x41 4094 st)) (buffer + of_nat i) = 0x41"
    if "1 \<le> i" "i \<le> 4094"
  proof -
    have e: "buffer + of_nat i - (buffer + 1) = (of_nat (i - 1) :: 32 word)"
      using that(1) by simp
    have u: "unat (of_nat (i - 1) :: 32 word) = i - 1"
      using that(2) by (simp add: unat_of_nat)
    have "i - 1 < 4094" using that by arith
    then have "in_region (buffer + 1) 4094 (buffer + of_nat i)"
      unfolding in_region_def e u .
    then show ?thesis
      unfolding m by (simp add: fill_mem_def)
  qed
qed

lemma zero_length_elsewhere:
  "bytewise_memset s c 0 st = (st, s)"
  "wordwise_32_memset s c 0 st32 = Some (st32, s)"
  "wordwise_memset wordsize s c 0 stw = Some (stw, s)"
  "distance 2 s = 0 \<Longrightarrow> wordwise_32_unaligned_memset s c 0 st32 = (st32, s)"
  "LENGTH('a) = 2 ^ k \<Longrightarrow> 3 \<le> k \<Longrightarrow> k \<le> 30 \<Longrightarrow> distance (k - 3) s = 0 \<Longrightarrow>
     wordwise_unaligned_memset LENGTH('a) (s :: 'a::len word) c 0 stw = (stw, s)"
proof -
  show "bytewise_memset s c 0 st = (st, s)"
    by (simp add: bytewise_memset_def byte_loop.simps [of _ _ 0])
  show "wordwise_32_memset s c 0 st32 = Some (st32, s)"
    by (simp add: wordwise_32_memset_def word_loop.simps [of _ _ 0])
  show "wordwise_memset wordsize s c 0 stw = Some (stw, s)"
    by (simp add: wordwise_memset_def word_loop.simps [of _ _ 0] split_def Let_def)
  have m: "(3 :: 32 word) = mask 2" by (simp add: mask_eq_exp_minus_1)
  show "wordwise_32_unaligned_memset s c 0 st32 = (st32, s)" if "distance 2 s = 0"
    using that unfolding wordwise_32_unaligned_memset_def m
    by (simp add: prologue_loop_eq byte_loop.simps [of _ _ 0] word_loop.simps [of _ _ 0])
  show "wordwise_unaligned_memset LENGTH('a) s c 0 stw = (stw, s)"
    if L: "LENGTH('a) = 2 ^ k" and k: "3 \<le> k" "k \<le> 30" and d: "distance (k - 3) s = 0"
  proof -
    obtain x :: "'a word" where j32: "k - 3 \<le> 32"
      and run: "\<And>s sz st. wordwise_unaligned_memset LENGTH('a) s c sz st = three_phase (k - 3) x (ucast c) s sz st"
      using generic_three_phase [OF L k, of c] by metis
    show ?thesis
      unfolding run three_phase_def using d
      by (simp add: prologue_loop_eq [OF j32] byte_loop.simps [of _ _ 0] word_loop.simps [of _ _ 0])
  qed
qed

section \<open>Stores inside and outside the caller's region\<close>

lemma stays_in_Nil [simp]: "stays_in p n []"
  by (simp add: stays_in_def)

lemma stays_in_append [simp]: "stays_in p n (xs @ ys) = (stays_in p n xs \<and> stays_in p n ys)"
  by (simp add: stays_in_def)

lemma stays_in_byte_stores:
  "stays_in p n (byte_stores q x m) = (\<forall>k<m. in_region p n (q + of_nat k))"
  by (auto simp add: stays_in_def byte_stores_def list_all_iff)

lemma stays_in_word_stores:
  fixes x :: "'w::len word"
  shows "stays_in p n (word_stores q x m) =
           (\<forall>i<m. \<forall>k<LENGTH('w) div 8. in_region p n (q + of_nat (LENGTH('w) div 8) * of_nat i + of_nat k))"
  by (auto simp add: stays_in_def word_stores_def list_all_iff)

lemma word_stores_leave:
  fixes x :: "'w::len word"
  assumes "0 < m" "0 < LENGTH('w) div 8" "\<not> in_region p n q"
  shows "\<not> stays_in p n (word_stores q x m)"
  unfolding stays_in_word_stores using assms
  by (auto intro!: exI [of _ 0])

lemma in_region_offset:
  fixes p :: "'a::len word"
  shows "in_region p n (p + of_nat k) = (k mod 2 ^ LENGTH('a) < n)"
  by (simp add: in_region_def unat_of_nat)

lemma bytewise_stays_in:
  fixes s sz :: "'a::len word"
  shows "stays_in s (unat sz) (byte_stores s x (unat sz) :: ('a word, 'w::len word) store list)"
proof -
  have b: "unat sz < 2 ^ LENGTH('a)" by simp
  have "in_region s (unat sz) (s + of_nat k)" if "k < unat sz" for k
  proof -
    have "k < 2 ^ LENGTH('a)" using that b by (rule less_trans)
    then show ?thesis using that by (simp add: in_region_offset)
  qed
  then show ?thesis by (simp add: stays_in_byte_stores)
qed

lemma in_region_offset_less:
  fixes p sz :: "'a::len word"
  assumes "m < unat sz"
  shows "in_region p (unat sz) (p + of_nat m)"
proof -
  have "unat sz < 2 ^ LENGTH('a)" by simp
  with assms have "m < 2 ^ LENGTH('a)" by (rule less_trans)
  then show ?thesis using assms by (simp add: in_region_offset)
qed

lemma three_phase_normal_stays:
  fixes s :: "'a::len word" and x :: "'w::len word"
  assumes lanes: "lanes x b"
    and W: "LENGTH('w) div 8 = 2 ^ j"
    and jw: "j < LENGTH('a)"
    and j32: "j \<le> 32"
    and d: "distance j s \<le> sz"
  shows "\<exists>tr. trace (fst (three_phase j x b s sz st)) = trace st @ tr \<and> stays_in s (unat sz) tr"
proof -
  define n1 where "n1 = unat (distance j s)"
  define N where "N = unat (sz - distance j s)"
  have on: "distance j s = of_nat n1" unfolding n1_def by simp
  have N: "N = unat sz - n1" unfolding N_def n1_def using d by (rule unat_sub)
  have le: "n1 \<le> unat sz" unfolding n1_def using d by (simp add: word_le_nat_alt)
  have tot: "n1 + (2 ^ j * (N div 2 ^ j) + N mod 2 ^ j) = unat sz"
    using N le by simp
  have n2: "drop_bit j (sz - distance j s) = of_nat (N div 2 ^ j)"
  proof -
    have "unat (drop_bit j (sz - distance j s)) = N div 2 ^ j"
      unfolding N_def by (subst unat_drop_bit_eq) (simp add: drop_bit_eq_div)
    then show ?thesis by (metis of_nat_unat ucast_id)
  qed
  have p1: "stays_in s (unat sz) (byte_stores s b n1 :: ('a word, 'w word) store list)"
    unfolding stays_in_byte_stores
  proof (intro allI impI)
    fix k assume "k < n1"
    then have "k < unat sz" using le by simp
    then show "in_region s (unat sz) (s + of_nat k)" by (rule in_region_offset_less)
  qed
  have p2: "stays_in s (unat sz) (word_stores (s + distance j s) x (N div 2 ^ j))"
    unfolding stays_in_word_stores W
  proof (intro allI impI)
    fix i k assume i: "i < N div 2 ^ j" and k: "k < (2::nat) ^ j"
    have "2 ^ j * i + k < 2 ^ j * (N div 2 ^ j)"
    proof -
      have "Suc i \<le> N div 2 ^ j" using i by simp
      then have "2 ^ j * Suc i \<le> 2 ^ j * (N div 2 ^ j)" by (rule mult_le_mono2)
      then show ?thesis using k by simp
    qed
    then have "n1 + (2 ^ j * i + k) < unat sz" using tot by linarith
    then have "in_region s (unat sz) (s + of_nat (n1 + (2 ^ j * i + k)))"
      by (rule in_region_offset_less)
    then show "in_region s (unat sz) (s + distance j s + of_nat (2 ^ j) * of_nat i + of_nat k)"
      unfolding on by (simp add: algebra_simps)
  qed
  have p3: "stays_in s (unat sz)
      (byte_stores (s + distance j s + 2 ^ j * drop_bit j (sz - distance j s)) b (N mod 2 ^ j)
         :: ('a word, 'w word) store list)"
    unfolding stays_in_byte_stores
  proof (intro allI impI)
    fix k assume "k < N mod 2 ^ j"
    then have "n1 + (2 ^ j * (N div 2 ^ j) + k) < unat sz" using tot by linarith
    then have "in_region s (unat sz) (s + of_nat (n1 + (2 ^ j * (N div 2 ^ j) + k)))"
      by (rule in_region_offset_less)
    then show "in_region s (unat sz) (s + distance j s + 2 ^ j * drop_bit j (sz - distance j s) + of_nat k)"
      unfolding on n2 [unfolded on] by (simp add: algebra_simps)
  qed
  show ?thesis
    unfolding three_phase_normal [OF assms] N_def [symmetric] n1_def [symmetric]
    using p1 p2 p3 by simp
qed

lemma unaligned_stays_in:
  fixes s :: "'a::len word"
  shows "2 < LENGTH('a) \<Longrightarrow> distance 2 s \<le> sz \<Longrightarrow>
           \<exists>tr. trace (fst (wordwise_32_unaligned_memset s c sz st32)) = trace st32 @ tr
              \<and> stays_in s (unat sz) tr"
    and "LENGTH('a) = 2 ^ k \<Longrightarrow> 3 \<le> k \<Longrightarrow> k \<le> 30 \<Longrightarrow> distance (k - 3) s \<le> sz \<Longrightarrow>
           \<exists>tr. trace (fst (wordwise_unaligned_memset LENGTH('a) s c sz stw)) = trace stw @ tr
              \<and> stays_in s (unat sz) tr"
proof -
  show "\<exists>tr. trace (fst (wordwise_32_unaligned_memset s c sz st32)) = trace st32 @ tr
              \<and> stays_in s (unat sz) tr"
    if "2 < LENGTH('a)" "distance 2 s \<le> sz"
    unfolding wordwise_32_unaligned_three_phase
    using pattern_32_lanes word32_bytes that(1) _ that(2)
    by (rule three_phase_normal_stays) simp
  show "\<exists>tr. trace (fst (wordwise_unaligned_memset LENGTH('a) s c sz stw)) = trace stw @ tr
              \<and> stays_in s (unat sz) tr"
    if L: "LENGTH('a) = 2 ^ k" and k: "3 \<le> k" "k \<le> 30" and d: "distance (k - 3) s \<le> sz"
  proof -
    obtain x :: "'a word" where x: "lanes x (ucast c)"
      "LENGTH('a) div 8 = 2 ^ (k - 3)" "k - 3 < LENGTH('a)" "k - 3 \<le> 32"
      and run: "\<And>s sz st. wordwise_unaligned_memset LENGTH('a) s c sz st = three_phase (k - 3) x (ucast c) s sz st"
      using generic_three_phase [OF L k, of c] by metis
    show ?thesis unfolding run using x d by (rule three_phase_normal_stays)
  qed
qed

lemma unaligned_agree_when_prologue_completes:
  fixes s :: "'a::len word"
  shows "2 < LENGTH('a) \<Longrightarrow> distance 2 s \<le> sz \<Longrightarrow>
           mem (fst (wordwise_32_unaligned_memset s c sz st32)) = mem (fst (bytewise_memset s c sz st32))"
    and "LENGTH('a) = 2 ^ k \<Longrightarrow> 3 \<le> k \<Longrightarrow> k \<le> 30 \<Longrightarrow> distance (k - 3) s \<le> sz \<Longrightarrow>
           mem (fst (wordwise_unaligned_memset LENGTH('a) s c sz stw)) = mem (fst (bytewise_memset s c sz stw))"
proof -
  show "mem (fst (wordwise_32_unaligned_memset s c sz st32)) = mem (fst (bytewise_memset s c sz st32))"
    if "2 < LENGTH('a)" "distance 2 s \<le> sz"
    unfolding unaligned_exact(1) [OF that] by (simp add: bytewise_memset_eq)
  show "mem (fst (wordwise_unaligned_memset LENGTH('a) s c sz stw)) = mem (fst (bytewise_memset s c sz stw))"
    if "LENGTH('a) = 2 ^ k" "3 \<le> k" "k \<le> 30" "distance (k - 3) s \<le> sz"
    unfolding unaligned_exact(2) [OF that] by (simp add: bytewise_memset_eq)
qed

lemma aligned_fillers_agree:
  fixes s :: "'a::len word"
  shows "2 < LENGTH('a) \<Longrightarrow> 4 dvd unat sz \<Longrightarrow>
           \<exists>st'. wordwise_32_memset s c sz st32 = Some (st', snd (bytewise_memset s c sz st32))
              \<and> mem st' = mem (fst (bytewise_memset s c sz st32))"
    and "LENGTH('a) = 2 ^ k \<Longrightarrow> 3 \<le> k \<Longrightarrow> LENGTH('a) div 8 dvd unat sz \<Longrightarrow>
           \<exists>st'. wordwise_memset LENGTH('a) s c sz stw = Some (st', snd (bytewise_memset s c sz stw))
              \<and> mem st' = mem (fst (bytewise_memset s c sz stw))"
proof -
  show "\<exists>st'. wordwise_32_memset s c sz st32 = Some (st', snd (bytewise_memset s c sz st32))
              \<and> mem st' = mem (fst (bytewise_memset s c sz st32))"
    if "2 < LENGTH('a)" "4 dvd unat sz"
    using that by (simp add: wordwise_32_memset_eq bytewise_memset_eq)
  show "\<exists>st'. wordwise_memset LENGTH('a) s c sz stw = Some (st', snd (bytewise_memset s c sz stw))
              \<and> mem st' = mem (fst (bytewise_memset s c sz stw))"
    if L: "LENGTH('a) = 2 ^ k" and k: "3 \<le> k" and al: "LENGTH('a) div 8 dvd unat sz"
  proof -
    obtain x :: "'a word" where "wordwise_memset LENGTH('a) s c sz stw =
     Some (stw\<lparr>mem := fill_mem s (unat sz) (ucast c) (mem stw),
         trace := trace stw @ word_stores s x (unat sz div (LENGTH('a) div 8))\<rparr>, s)"
      using wordwise_memset_eq [OF L k al, of c s stw] by blast
    then show ?thesis by (simp add: bytewise_memset_eq)
  qed
qed

lemma word_stores_first:
  "0 < n \<Longrightarrow> word_stores p x n ! 0 = Store_Word p x"
  by (simp add: word_stores_def)

lemma pattern_32_example: "pattern_32 0x141 = 0x41414141"
  by (simp add: pattern_32_def)

lemma short_of_boundary_2:
  "(2 :: 32 word) < distance 2 1" "(2 :: 32 word) < distance 2 0x2001"
  by (simp_all add: distance_def mask_eq_exp_minus_1)

lemma wrap_leaves:
  fixes s sz :: "32 word"
  assumes d: "sz < distance 2 s" and out: "\<not> in_region s (unat sz) (s + sz)"
  shows "\<not> stays_in s (unat sz) (trace (fst (wordwise_32_unaligned_memset s c sz zero32)))"
    and "\<not> stays_in s (unat sz) (trace (fst (wordwise_unaligned_memset 32 s c sz zero32)))"
proof -
  have w: "\<not> stays_in s (unat sz) (word_stores (s + sz) x 1073741823)" for x :: "32 word"
    using _ _ out by (rule word_stores_leave) simp_all
  show "\<not> stays_in s (unat sz) (trace (fst (wordwise_32_unaligned_memset s c sz zero32)))"
    unfolding wrap32(2) [OF d] using w by simp
  obtain x where "trace (fst (wordwise_unaligned_memset 32 s c sz zero32)) =
           trace zero32 @ byte_stores s (ucast c) (unat sz)
             @ word_stores (s + sz) x 1073741823
             @ byte_stores (s + sz + 4 * drop_bit 2 (- 1)) (ucast c) 3"
    using wrap_generic32(2) [OF d] by blast
  then show "\<not> stays_in s (unat sz) (trace (fst (wordwise_unaligned_memset 32 s c sz zero32)))"
    using w by simp
qed

section \<open>The verifier's loops\<close>

lemma small_byte_bit7:
  fixes x :: byte
  assumes "unat x < 128"
  shows "\<not> bit x 7"
proof -
  have "x < 2 ^ 7" using assms by (simp add: word_less_nat_alt)
  then have "x AND mask 7 = x" by (rule less_mask_eq)
  then have "take_bit 7 x = x" by (simp add: take_bit_eq_mask)
  then have "bit x 7 = bit (take_bit 7 x) 7" by simp
  then show ?thesis by (simp add: bit_take_bit_iff)
qed

lemma scast_small:
  fixes x :: byte
  assumes "unat x < 128"
  shows "(scast x :: cint) = ucast x"
proof (rule bit_eqI)
  fix n
  have b7: "\<not> bit x 7" using assms by (rule small_byte_bit7)
  show "bit (scast x :: cint) n = bit (ucast x :: cint) n"
  proof (cases "n < 7")
    case True
    then show ?thesis by (simp add: bit_signed_iff bit_ucast_iff min_def)
  next
    case False
    then have "min 7 n = 7" by simp
    moreover have "\<not> bit x n" using False b7 
      by (cases "n = 7") (auto dest: bit_imp_le_length)
    ultimately show ?thesis using b7 by (simp add: bit_signed_iff bit_ucast_iff)
  qed
qed

lemma ucast_byte_le: "(ucast (x :: byte) :: cint) \<le> 0xff"
proof -
  have "unat (ucast x :: cint) = unat x"
    by (simp add: unsigned_ucast_eq take_bit_nat_eq_self unsigned_less [of x, simplified] less_trans [OF unsigned_less [of x]])
  moreover have "unat x < 256" using unsigned_less [of x] by simp
  ultimately show ?thesis by (simp add: word_le_nat_alt)
qed

lemma promote_signed_small:
  "unat x < 128 \<Longrightarrow> promote_char True x \<le> 0xff"
  by (simp add: promote_char_def scast_small ucast_byte_le)

lemma promote_signed_128: "\<not> promote_char True 128 \<le> 0xff"
  by (simp add: promote_char_def)

lemma promote_unsigned: "promote_char False x \<le> 0xff"
  by (simp add: promote_char_def ucast_byte_le)

lemma sint_succ:
  fixes i bound :: cint
  assumes "i <s bound"
  shows "sint (i + 1) = sint i + 1"
proof -
  have lt: "sint i < sint bound" using assms by (simp add: word_sless_alt)
  moreover have "sint bound \<le> 2 ^ 31 - 1" using sint_lt [of bound] by simp
  moreover have "- (2 ^ 31) \<le> sint i" using sint_ge [of i] by simp
  ultimately have "signed_take_bit 31 (sint i + 1) = sint i + 1"
    by (intro signed_take_bit_int_eq_self) simp_all
  then show ?thesis by (simp add: sint_word_ariths)
qed

lemma scan_None:
  assumes "\<forall>j :: cint. sint i \<le> sint j \<and> sint j < sint bound \<longrightarrow> mem st (buffer + scast j) = set'"
  shows "scan buffer bound i set' st = None"
  using assms
proof (induction buffer bound i set' st rule: scan.induct)
  case (1 buffer bound i set' st)
  show ?case
  proof (cases "i <s bound")
    case False
    then show ?thesis by (subst scan.simps) simp
  next
    case True
    then have lt: "sint i < sint bound" by (simp add: word_sless_alt)
    have here: "mem st (buffer + scast i) = set'" using "1.prems" [rule_format, of i] lt by simp
    have "\<forall>j :: cint. sint (i + 1) \<le> sint j \<and> sint j < sint bound \<longrightarrow> mem st (buffer + scast j) = set'"
      using "1.prems" sint_succ [OF True] by simp
    then have "scan buffer bound (i + 1) set' st = None"
      using True here by (intro "1.IH") simp_all
    then show ?thesis using True here by (subst scan.simps) simp
  qed
qed

lemma scan_Some:
  assumes "scan buffer bound i set' st = Some r" "0 \<le> sint i"
  shows "\<exists>j :: cint. r = j + 1 \<and> sint r = sint j + 1 \<and> sint i \<le> sint j \<and> sint j < sint bound
           \<and> mem st (buffer + scast j) \<noteq> set'
           \<and> (\<forall>l :: cint. sint i \<le> sint l \<and> sint l < sint j \<longrightarrow> mem st (buffer + scast l) = set')"
  using assms
proof (induction buffer bound i set' st rule: scan.induct)
  case (1 buffer bound i set' st)
  from "1.prems"(1) have lt: "i <s bound"
    by (subst (asm) scan.simps) (simp split: if_splits)
  then have lt': "sint i < sint bound" by (simp add: word_sless_alt)
  note succ = sint_succ [OF lt]
  show ?case
  proof (cases "mem st (buffer + scast i) \<noteq> set'")
    case True
    then have "r = i + 1" using "1.prems"(1) lt by (subst (asm) scan.simps) simp
    then show ?thesis using True lt' succ by (intro exI [of _ i]) auto
  next
    case False
    then have "scan buffer bound (i + 1) set' st = Some r"
      using "1.prems"(1) lt by (subst (asm) scan.simps) simp
    moreover have "0 \<le> sint (i + 1)" using "1.prems"(2) succ by simp
    ultimately obtain j :: cint where j: "r = j + 1" "sint r = sint j + 1" "sint (i + 1) \<le> sint j"
      "sint j < sint bound" "mem st (buffer + scast j) \<noteq> set'"
      "\<forall>l :: cint. sint (i + 1) \<le> sint l \<and> sint l < sint j \<longrightarrow> mem st (buffer + scast l) = set'"
      using "1.IH" [OF lt] False by blast
    have "mem st (buffer + scast l) = set'" if "sint i \<le> sint l" "sint l < sint j" for l :: cint
    proof (cases "sint l = sint i")
      case True
      then have "l = i" by (rule signed_word_eqI)
      then show ?thesis using False by simp
    next
      case ne: False
      then have "sint (i + 1) \<le> sint l" using that(1) succ by simp
      then show ?thesis using j(6) that(2) by blast
    qed
    then show ?thesis using j succ by (intro exI [of _ j]) auto
  qed
qed

lemma check_loop_signed:
  assumes ok: "\<And>set' st. unat set' < 128 \<Longrightarrow>
      \<exists>st' r. f (buffer + scast u) (promote_char True set') (ucast (4096 - 2 * u)) st = Some (st', r)
         \<and> scan buffer (4096 - 2 * u) u set' st' = None"
  shows "unat set' \<le> 128 \<Longrightarrow> check_loop True f u buffer set' st = Some (Returned 0)"
proof (induction "128 - unat set'" arbitrary: set' st)
  case 0
  then have "unat set' = 128" by simp
  then have "set' = 128" by (metis of_nat_unat ucast_id of_nat_numeral)
  then show ?case by (subst check_loop.simps) (simp add: promote_signed_128)
next
  case (Suc n)
  then have lt: "unat set' < 128" by simp
  obtain st' r where f: "f (buffer + scast u) (promote_char True set') (ucast (4096 - 2 * u)) st = Some (st', r)"
    and s: "scan buffer (4096 - 2 * u) u set' st' = None"
    using ok [OF lt] by blast
  have u1: "unat (set' + 1) = unat set' + 1"
    using lt by (simp add: unat_word_ariths)
  have "check_loop True f u buffer (set' + 1) st' = Some (Returned 0)"
    using Suc.hyps(2) lt u1 by (intro Suc.hyps(1)) simp_all
  then show ?case
    by (subst check_loop.simps) (simp add: promote_signed_small [OF lt] f s)
qed

lemma check_loop_unsigned_aux:
  assumes "check_loop cs f u buffer set' st = Some r"
  shows "\<not> cs \<and> 0 \<le> sint u \<longrightarrow> r \<noteq> Returned 0"
proof (rule check_loop.raw_induct [where P = "\<lambda>cs f u buffer set' st r. \<not> cs \<and> 0 \<le> sint u \<longrightarrow> r \<noteq> Returned 0",
      OF _ assms], goal_cases)
  case (1 loop cs f u buffer set' st r)
  show ?case
  proof
    assume p: "\<not> cs \<and> 0 \<le> sint u"
    then have le: "promote_char cs set' \<le> 0xff"
      by (simp add: promote_unsigned)
    show "r \<noteq> Returned 0"
    proof (cases "f (buffer + scast u) (promote_char cs set') (ucast (4096 - 2 * u)) st")
      case None
      then show ?thesis using "1"(2) le by simp
    next
      case (Some a)
      obtain st' p' where a: "a = (st', p')" by (cases a)
      show ?thesis
      proof (cases "scan buffer (4096 - 2 * u) u set' st'")
        case None
        then have "loop cs f u buffer (set' + 1) st' = Some r"
          using "1"(2) le Some a by simp
        then show ?thesis using "1"(1) p by blast
      next
        case scan: (Some fail_byte)
        obtain j :: cint where "sint fail_byte = sint j + 1" "sint u \<le> sint j"
          using scan_Some [OF scan] p by blast
        then have "fail_byte \<noteq> 0" using p by auto
        moreover have "r = Returned fail_byte"
          using "1"(2) le Some a scan by simp
        ultimately show ?thesis by simp
      qed
    qed
  qed
qed

lemma low7_small:
  fixes x :: byte
  assumes "unat x < 128"
  shows "(ucast (promote_char True x AND 0x7f) :: byte) = x"
proof -
  have m: "(0x7f :: cint) = mask 7" by (simp add: mask_eq_exp_minus_1)
  have b7: "\<not> bit x 7" using assms by (rule small_byte_bit7)
  show ?thesis
    unfolding promote_char_def scast_small [OF assms] m
  proof (simp, rule bit_eqI)
    fix n
    show "bit (ucast (ucast x AND mask 7 :: cint) :: byte) n = bit x n"
    proof (cases "n < 7")
      case True
      then show ?thesis by (simp add: bit_ucast_iff bit_and_iff bit_mask_iff)
    next
      case False
      then have "\<not> bit x n" using b7 by (cases "n = 7") (auto dest: bit_imp_le_length)
      then show ?thesis using False by (simp add: bit_ucast_iff bit_and_iff bit_mask_iff)
    qed
  qed
qed

lemma nonneg_index:
  fixes j :: cint
  assumes "0 \<le> sint j"
  shows "unat j = nat (sint j)"
proof -
  have "sint j < 2 ^ 32" using sint_lt [of j] by simp
  then have "take_bit 32 (sint j) = sint j"
    using assms by (intro take_bit_int_eq_self)
  then have "uint j = sint j" by (simp add: uint_sint)
  then show ?thesis by (simp add: unat_eq_nat_uint)
qed

lemma low7_passes:
  fixes buffer :: "32 word"
  assumes "unat set' < 128"
  shows "\<exists>st' r. returning low7_memset (buffer + scast (0 :: cint)) (promote_char True set')
                    (ucast (4096 - 2 * 0 :: cint)) st = Some (st', r)
           \<and> scan buffer (4096 - 2 * 0) 0 set' st' = None"
proof -
  define st' where "st' = st\<lparr>mem := fill_mem buffer 4096 set' (mem st),
      trace := trace st @ byte_stores buffer set' 4096\<rparr>"
  have run: "returning low7_memset (buffer + scast (0 :: cint)) (promote_char True set')
                    (ucast (4096 - 2 * 0 :: cint)) st = Some (st', buffer)"
    unfolding st'_def returning_def low7_memset_def bytewise_memset_eq
    by (simp add: low7_small [OF assms])
  have "mem st' (buffer + scast j) = set'" if "0 \<le> sint j" "sint j < 4096" for j :: cint
  proof -
    have "unat (scast j :: 32 word) < 4096" using that by (simp add: nonneg_index)
    then show ?thesis by (simp add: st'_def fill_mem_def in_region_def)
  qed
  then have "scan buffer (4096 - 2 * 0) 0 set' st' = None"
    by (intro scan_None) simp
  with run show ?thesis by blast
qed

lemma scan_skips_last_filled_byte:
  fixes buffer :: "32 word"
  assumes "\<forall>j :: cint. 1 \<le> sint j \<and> sint j < 4094 \<longrightarrow> mem st (buffer + scast j) = set'"
  shows "scan buffer (4096 - 2 * 1) 1 set' st = None"
  using assms by (intro scan_None) simp

section \<open>The claims\<close>

lemma and_ff_idem: "(c AND 0xff) AND 0xff = (c AND 0xff :: cint)"
  by (simp add: and.assoc)

lemma pattern_32_masked: "pattern_32 (c AND 0xff) = pattern_32 c"
  by (simp add: pattern_32_def and_ff_idem)

text \<open>
  Claim C6. \<^verbatim>\<open>bytewise_memset(dest, c, sz)\<close>, for any \<open>dest\<close>, \<open>c\<close> and \<open>sz\<close>: it issues
  \<open>sz\<close> single-byte stores of \<^verbatim>\<open>c & 0xff\<close>, the \<open>k\<close>-th of them at \<open>dest + k\<close>, so that
  afterwards the \<open>sz\<close> bytes from \<open>dest\<close> hold \<^verbatim>\<open>c & 0xff\<close> and all other memory is as
  before; it returns \<open>dest\<close>; and its loop leaves the cursor at \<open>dest + sz\<close>.
\<close>

theorem bytewise_memset_fills:
  "bytewise_memset s c sz st =
     (st\<lparr>mem := (\<lambda>a. if in_region s (unat sz) a then ucast (c AND 0xff) else mem st a),
         trace := trace st @ map (\<lambda>k. Store_Byte (s + of_nat k) (ucast (c AND 0xff))) [0..<unat sz]\<rparr>,
      s)
   \<and> snd (byte_loop s (ucast (c AND 0xff)) sz st) = (s + sz, - 1)"
  unfolding ucast_and_ff
  by (simp add: bytewise_memset_eq byte_loop_eq fill_mem_def byte_stores_def)

text \<open>
  Claim C8. Masking law: each of the five fillers, called with \<open>c\<close>, ends in the same state
  (memory and stores issued) and returns the same result as when it is called with
  \<^verbatim>\<open>c & 0xff\<close>, for every \<open>c\<close>, destination and length; in particular a value outside
  0..255 changes neither whether the call returns nor what it returns.
\<close>

theorem masking_law:
  "bytewise_memset s c sz st = bytewise_memset s (c AND 0xff) sz st
   \<and> wordwise_32_memset s c sz st32 = wordwise_32_memset s (c AND 0xff) sz st32
   \<and> wordwise_memset wordsize s c sz stw = wordwise_memset wordsize s (c AND 0xff) sz stw
   \<and> wordwise_32_unaligned_memset s c sz st32 = wordwise_32_unaligned_memset s (c AND 0xff) sz st32
   \<and> wordwise_unaligned_memset wordsize s c sz stw = wordwise_unaligned_memset wordsize s (c AND 0xff) sz stw"
  by (simp add: bytewise_memset_def wordwise_32_memset_def wordwise_memset_def
      wordwise_32_unaligned_memset_def wordwise_unaligned_memset_def and_ff_idem pattern_32_masked)

text \<open>
  Claim C1 says that the unaligned fillers, for every destination and every length, lengths
  0 and below the word size included, write \<^verbatim>\<open>c & 0xff\<close> into the \<open>sz\<close> bytes from \<open>dest\<close> and
  return \<open>dest\<close>. The code at \<open>dest = 1\<close>, \<open>c = 0x141\<close>, \<open>sz = 2\<close> on a 32-bit machine
  (the boundary is three bytes away): after the two prologue stores the third store of
  \<^verbatim>\<open>wordwise_32_unaligned_memset\<close> is a word store at address 3, which is not one of the two
  bytes from address 1; neither unaligned filler keeps its stores inside the region, so
  the call is not one that writes the region and returns. With the prologue completed
  (the distance to the boundary is at most \<open>sz\<close>) the fillers do fill the region, leave the
  rest of memory alone and keep their stores inside the region: lemmas \<open>unaligned_exact\<close>
  and \<open>unaligned_stays_in\<close>.
\<close>

theorem short_fill_leaves_region:
  "\<not> in_region (1 :: 32 word) (unat (2 :: 32 word)) 3
   \<and> trace (fst (wordwise_32_unaligned_memset (1 :: 32 word) 0x141 2 zero32)) ! 2 = Store_Word 3 0x41414141
   \<and> \<not> stays_in 1 (unat (2 :: 32 word)) (trace (fst (wordwise_32_unaligned_memset (1 :: 32 word) 0x141 2 zero32)))
   \<and> \<not> stays_in 1 (unat (2 :: 32 word)) (trace (fst (wordwise_unaligned_memset 32 (1 :: 32 word) 0x141 2 zero32)))"
proof (intro conjI)
  show out: "\<not> in_region (1 :: 32 word) (unat (2 :: 32 word)) 3"
    by (simp add: in_region_def)
  show "trace (fst (wordwise_32_unaligned_memset (1 :: 32 word) 0x141 2 zero32)) ! 2 = Store_Word 3 0x41414141"
    unfolding wrap32(2) [OF short_of_boundary_2(1)]
    by (simp add: zero32_def nth_append word_stores_first pattern_32_example)
  have out': "\<not> in_region (1 :: 32 word) (unat (2 :: 32 word)) (1 + 2)" using out by simp
  show "\<not> stays_in 1 (unat (2 :: 32 word)) (trace (fst (wordwise_32_unaligned_memset (1 :: 32 word) 0x141 2 zero32)))"
    using short_of_boundary_2(1) out' by (rule wrap_leaves(1))
  show "\<not> stays_in 1 (unat (2 :: 32 word)) (trace (fst (wordwise_unaligned_memset 32 (1 :: 32 word) 0x141 2 zero32)))"
    using short_of_boundary_2(1) out' by (rule wrap_leaves(2))
qed

text \<open>
  Claim C2 says that a request shorter than the distance to the next word boundary is served
  by \<open>sz\<close> single-byte stores in the prologue and nothing else. The code at
  \<^verbatim>\<open>wordwise_32_unaligned_memset(0x1002, 0x41, 1)\<close> on a 32-bit machine (the boundary is two
  bytes away): four single-byte stores, one in the prologue and three in the epilogue, and
  1073741823 word stores in the body.
\<close>

theorem short_fill_issues_word_stores:
  "length (filter is_byte_store (trace (fst (wordwise_32_unaligned_memset (0x1002 :: 32 word) 0x41 1 zero32)))) = 4
   \<and> length (filter is_word_store (trace (fst (wordwise_32_unaligned_memset (0x1002 :: 32 word) 0x41 1 zero32)))) = 1073741823"
  unfolding wrap32(2) [OF short_of_boundary(3)] by (simp add: zero32_def)

text \<open>
  Claim C3 says that \<^verbatim>\<open>check_memset\<close> tries every byte value 0..255 and reports a mismatch
  for any of them. With a signed \<^verbatim>\<open>char\<close> the loop \<^verbatim>\<open>for (set = 0; (unsigned int)set <= 0xff; ++set)\<close>
  ends after \<^verbatim>\<open>set = 127\<close>: \<^verbatim>\<open>++set\<close> gives \<open>- 128\<close>, which is \<open>0xFFFFFF80\<close> as an
  \<^verbatim>\<open>unsigned int\<close>. The code on \<open>low7_memset\<close>, which fills with the wrong byte for each of the
  values 128..255 (for 200 it stores \<open>0x48\<close>), aligned probe, 32-bit machine, any buffer address
  and any memory: the result is 0, no mismatch.
\<close>

theorem verifier_passes_low7_filler:
  fixes buffer :: "32 word"
  shows "check_memset True (returning low7_memset) 0 buffer st = Some (Returned 0)
     \<and> mem (fst (low7_memset buffer (promote_char True 200) 4096 st)) buffer = 0x48"
proof
  show "check_memset True (returning low7_memset) 0 buffer st = Some (Returned 0)"
    unfolding check_memset_def
    by (rule check_loop_signed [where f = "returning low7_memset" and u = 0 and buffer = buffer])
      (simp_all only: low7_passes unsigned_0 zero_le)
  show "mem (fst (low7_memset buffer (promote_char True 200) 4096 st)) buffer = 0x48"
    by (simp add: low7_memset_def bytewise_memset_eq promote_char_def fill_mem_def in_region_def)
qed

text \<open>
  Claim C4 says that each word-wise filler leaves the same region contents and returns the
  same pointer as \<^verbatim>\<open>bytewise_memset\<close> on the same arguments, the unaligned fillers without
  any precondition. The code at \<open>dest = 0x2001\<close>, \<open>c = 0x7f\<close>, \<open>sz = 2\<close> on a 32-bit machine
  with zeroed memory: \<^verbatim>\<open>bytewise_memset\<close> keeps its stores inside the region and leaves address
  \<open>0x2003\<close> at 0; both unaligned fillers issue stores outside the region, and address
  \<open>0x2003\<close> holds \<open>0x7f\<close> after them: where \<^verbatim>\<open>bytewise_memset\<close> returns, their call runs out of
  the memory it may write. The aligned fillers under their precondition, and the unaligned
  ones with the prologue completed, do agree with \<^verbatim>\<open>bytewise_memset\<close> on all of memory:
  lemmas \<open>aligned_fillers_agree\<close> and \<open>unaligned_agree_when_prologue_completes\<close>.
\<close>

theorem unaligned_differs_from_bytewise:
  "stays_in 0x2001 (unat (2 :: 32 word)) (trace (fst (bytewise_memset (0x2001 :: 32 word) 0x7f 2 zero32)))
   \<and> \<not> stays_in 0x2001 (unat (2 :: 32 word)) (trace (fst (wordwise_32_unaligned_memset (0x2001 :: 32 word) 0x7f 2 zero32)))
   \<and> \<not> stays_in 0x2001 (unat (2 :: 32 word)) (trace (fst (wordwise_unaligned_memset 32 (0x2001 :: 32 word) 0x7f 2 zero32)))
   \<and> \<not> in_region (0x2001 :: 32 word) (unat (2 :: 32 word)) 0x2003
   \<and> mem (fst (bytewise_memset (0x2001 :: 32 word) 0x7f 2 zero32)) 0x2003 = 0
   \<and> mem (fst (wordwise_32_unaligned_memset (0x2001 :: 32 word) 0x7f 2 zero32)) 0x2003 = 0x7f
   \<and> mem (fst (wordwise_unaligned_memset 32 (0x2001 :: 32 word) 0x7f 2 zero32)) 0x2003 = 0x7f"
proof (intro conjI)
  show "stays_in 0x2001 (unat (2 :: 32 word)) (trace (fst (bytewise_memset (0x2001 :: 32 word) 0x7f 2 zero32)))"
    using bytewise_stays_in [of "0x2001 :: 32 word" 2 "0x7f", where 'w = 32]
    by (simp add: bytewise_memset_eq zero32_def)
  show out: "\<not> in_region (0x2001 :: 32 word) (unat (2 :: 32 word)) 0x2003"
    by (simp add: in_region_def)
  have out': "\<not> in_region (0x2001 :: 32 word) (unat (2 :: 32 word)) (0x2001 + 2)" using out by simp
  show "\<not> stays_in 0x2001 (unat (2 :: 32 word)) (trace (fst (wordwise_32_unaligned_memset (0x2001 :: 32 word) 0x7f 2 zero32)))"
    using short_of_boundary_2(2) out' by (rule wrap_leaves(1))
  show "\<not> stays_in 0x2001 (unat (2 :: 32 word)) (trace (fst (wordwise_unaligned_memset 32 (0x2001 :: 32 word) 0x7f 2 zero32)))"
    using short_of_boundary_2(2) out' by (rule wrap_leaves(2))
  show "mem (fst (bytewise_memset (0x2001 :: 32 word) 0x7f 2 zero32)) 0x2003 = 0"
    by (simp add: bytewise_memset_eq zero32_def fill_mem_def in_region_def)
  show "mem (fst (wordwise_32_unaligned_memset (0x2001 :: 32 word) 0x7f 2 zero32)) 0x2003 = 0x7f"
    unfolding wrap32(1) [OF short_of_boundary_2(2)]
    by (simp add: zero32_def fill_mem_def in_region_def)
  show "mem (fst (wordwise_unaligned_memset 32 (0x2001 :: 32 word) 0x7f 2 zero32)) 0x2003 = 0x7f"
    unfolding wrap_generic32(1) [OF short_of_boundary_2(2)]
    by (simp add: zero32_def fill_mem_def in_region_def)
qed

text \<open>
  Claim C5. The pattern word. For the two fixed shifts of the 32-bit fillers, each of the four
  byte lanes of \<^verbatim>\<open>x\<close> is \<^verbatim>\<open>c & 0xff\<close>. For the doubling loop with \<^verbatim>\<open>__WORDSIZE\<close> the width
  \<open>2 ^ k\<close> of the word, \<open>3 \<le> k \<le> 30\<close>: the loop ends with \<open>i = k\<close> and every byte lane of \<^verbatim>\<open>x\<close> is
  \<^verbatim>\<open>c & 0xff\<close>.
\<close>

theorem pattern_word_lanes:
  "(\<forall>j<4. (ucast (drop_bit (8 * j) (pattern_32 c)) :: byte) = ucast (c AND 0xff))
   \<and> (LENGTH('a::len) = 2 ^ k \<and> 3 \<le> k \<and> k \<le> 30 \<longrightarrow>
        (\<exists>x :: 'a word. pattern_loop LENGTH('a) 3 (ucast (c AND 0xff)) = (k, x)
            \<and> (\<forall>j < LENGTH('a) div 8. (ucast (drop_bit (8 * j) x) :: byte) = ucast (c AND 0xff))))"
proof (intro conjI impI)
  show "\<forall>j<4. (ucast (drop_bit (8 * j) (pattern_32 c)) :: byte) = ucast (c AND 0xff)"
    using pattern_32_lanes [of c] unfolding lanes_def ucast_and_ff by simp
next
  assume "LENGTH('a) = 2 ^ k \<and> 3 \<le> k \<and> k \<le> 30"
  then have "\<exists>x :: 'a word. pattern_loop LENGTH('a) 3 (ucast (c AND 0xff :: cint)) = (k, x) \<and> lanes x (ucast c)"
    by (intro pattern_loop_word) simp_all
  then show "\<exists>x :: 'a word. pattern_loop LENGTH('a) 3 (ucast (c AND 0xff)) = (k, x)
            \<and> (\<forall>j < LENGTH('a) div 8. (ucast (drop_bit (8 * j) x) :: byte) = ucast (c AND 0xff))"
    unfolding lanes_def ucast_and_ff .
qed

theorem pattern_word_lanes_witness:
  "(ucast (drop_bit (8 * 3) (pattern_32 0x1234)) :: byte) = 0x34
   \<and> LENGTH(64) = 2 ^ 6 \<and> (3 :: nat) \<le> 6 \<and> (6 :: nat) \<le> 30
   \<and> (\<exists>x :: 64 word. pattern_loop LENGTH(64) 3 (ucast (0x1234 AND 0xff :: cint)) = (6, x)
          \<and> (ucast (drop_bit (8 * 5) x) :: byte) = 0x34)"
proof -
  have b: "(ucast (0x1234 AND 0xff :: cint) :: byte) = 0x34" by simp
  note t = pattern_word_lanes [where 'a = 64 and k = 6 and c = "0x1234", unfolded b]
  have "(ucast (drop_bit (8 * 3) (pattern_32 0x1234)) :: byte) = 0x34"
    using t [THEN conjunct1, rule_format, of 3] by simp
  moreover have "\<exists>x :: 64 word. pattern_loop LENGTH(64) 3 (ucast (0x1234 AND 0xff :: cint)) = (6, x)
          \<and> (ucast (drop_bit (8 * 5) x) :: byte) = 0x34"
  proof -
    obtain x :: "64 word" where x: "pattern_loop LENGTH(64) 3 (ucast (0x1234 AND 0xff :: cint)) = (6, x)"
      "\<forall>j < LENGTH(64) div 8. (ucast (drop_bit (8 * j) x) :: byte) = 0x34"
      using t by auto
    from x(2) [rule_format, of 5] have "(ucast (drop_bit (8 * 5) x) :: byte) = 0x34" by simp
    with x(1) show ?thesis by blast
  qed
  ultimately show ?thesis by simp
qed

text \<open>
  Claim C7 says that a call with length 0 performs no store and leaves all memory unchanged,
  for each filler and each destination. The code at
  \<^verbatim>\<open>wordwise_32_unaligned_memset(1, 0x41, 0)\<close> on a 32-bit machine with zeroed memory: the
  byte at address 1 is \<open>0x41\<close> afterwards, and 1073741826 stores were issued; the byte at
  address 1 is \<open>0x41\<close> after \<^verbatim>\<open>wordwise_unaligned_memset(1, 0x41, 0)\<close> as well.
\<close>

theorem zero_length_fill_stores:
  "mem zero32 1 = 0
   \<and> mem (fst (wordwise_32_unaligned_memset (1 :: 32 word) 0x41 0 zero32)) 1 = 0x41
   \<and> length (trace (fst (wordwise_32_unaligned_memset (1 :: 32 word) 0x41 0 zero32))) = 1073741826
   \<and> mem (fst (wordwise_unaligned_memset 32 (1 :: 32 word) 0x41 0 zero32)) 1 = 0x41"
  unfolding wrap32 [OF short_of_boundary(1)] wrap_generic32(1) [OF short_of_boundary(1)]
  by (simp add: zero32_def fill_mem_def in_region_def)

text \<open>
  Claim C9 says that no filler modifies a byte outside the \<open>sz\<close> bytes from \<open>s\<close>. The code
  at \<open>s = 0x1002\<close>, \<open>c = 0x41\<close>, \<open>sz = 1\<close> on a 32-bit machine with zeroed memory: address
  \<open>0x2000\<close> is outside the region and holds \<open>0x41\<close> after either unaligned filler.
\<close>

theorem short_fill_writes_outside:
  "\<not> in_region (0x1002 :: 32 word) (unat (1 :: 32 word)) 0x2000
   \<and> mem zero32 0x2000 = 0
   \<and> mem (fst (wordwise_32_unaligned_memset (0x1002 :: 32 word) 0x41 1 zero32)) 0x2000 = 0x41
   \<and> mem (fst (wordwise_unaligned_memset 32 (0x1002 :: 32 word) 0x41 1 zero32)) 0x2000 = 0x41"
  unfolding wrap32(1) [OF short_of_boundary(3)] wrap_generic32(1) [OF short_of_boundary(3)]
  by (simp add: zero32_def fill_mem_def in_region_def)

text \<open>
  Claim C10. In both unaligned fillers, when \<open>sz\<close> is smaller than the distance from \<open>s\<close>
  to the next word boundary (so the cursor is still misaligned when the remaining length
  reaches 0; a misaligned \<open>s\<close> with \<open>sz = 0\<close> is the first case): the prologue ends with
  the cursor at \<open>s + sz\<close> and the counter at \<open>- 1\<close>, which is \<open>2 ^ w - 1\<close> for addresses of
  \<open>w\<close> bits; the call then issues, after the \<open>sz\<close> prologue bytes, \<open>(2 ^ w - 1) div W\<close> word
  stores in the body, which is not 0, and \<open>W - 1\<close> single-byte stores in the epilogue
  (\<open>W\<close> is 4, or the bytes per word of the generic filler).
\<close>

theorem prologue_counter_wraps:
  fixes s :: "'a::len word"
  shows
  "(2 < LENGTH('a) \<and> sz < distance 2 s \<longrightarrow>
      snd (prologue_loop 3 s (ucast (c AND 0xff)) sz st32) = (s + sz, - 1)
      \<and> unat (- 1 :: 'a word) = 2 ^ LENGTH('a) - 1
      \<and> trace (fst (wordwise_32_unaligned_memset s c sz st32)) =
           trace st32 @ byte_stores s (ucast (c AND 0xff)) (unat sz)
             @ word_stores (s + sz) (pattern_32 c) ((2 ^ LENGTH('a) - 1) div 4)
             @ byte_stores (s + sz + 4 * drop_bit 2 (- 1)) (ucast (c AND 0xff)) 3
      \<and> 0 < (2 ^ LENGTH('a) - 1) div (4 :: nat))
   \<and> (LENGTH('a) = 2 ^ k \<and> 3 \<le> k \<and> k \<le> 30 \<and> sz < distance (k - 3) s \<longrightarrow>
      snd (prologue_loop (of_nat (LENGTH('a) div 8 - 1)) s (ucast (c AND 0xff)) sz stw) = (s + sz, - 1)
      \<and> unat (- 1 :: 'a word) = 2 ^ LENGTH('a) - 1
      \<and> trace (fst (wordwise_unaligned_memset LENGTH('a) s c sz stw)) =
           trace stw @ byte_stores s (ucast (c AND 0xff)) (unat sz)
             @ word_stores (s + sz) (snd (pattern_loop LENGTH('a) 3 (ucast (c AND 0xff)) :: nat \<times> 'a word))
                 ((2 ^ LENGTH('a) - 1) div (LENGTH('a) div 8))
             @ byte_stores (s + sz + of_nat (LENGTH('a) div 8) * drop_bit (k - 3) (- 1)) (ucast (c AND 0xff))
                 (LENGTH('a) div 8 - 1)
      \<and> 0 < (2 ^ LENGTH('a) - 1) div (LENGTH('a) div 8))"
proof (intro conjI impI)
  have u: "unat (- 1 :: 'a word) = 2 ^ LENGTH('a) - 1"
    by (simp add: unsigned_minus_1_eq_mask mask_eq_exp_minus_1)
  {
    assume h: "2 < LENGTH('a) \<and> sz < distance 2 s"
    then have w: "2 < LENGTH('a)" and d: "sz < distance 2 s" by simp_all
    have m: "(3 :: 32 word) = mask 2" by (simp add: mask_eq_exp_minus_1)
    note t = three_phase_wrap_trace [OF pattern_32_lanes word32_bytes w _ d, of c st32, simplified]
    show "snd (prologue_loop 3 s (ucast (c AND 0xff)) sz st32) = (s + sz, - 1)"
      unfolding ucast_and_ff m using t(1) by simp
    show "unat (- 1 :: 'a word) = 2 ^ LENGTH('a) - 1" by (rule u)
    show "trace (fst (wordwise_32_unaligned_memset s c sz st32)) =
           trace st32 @ byte_stores s (ucast (c AND 0xff)) (unat sz)
             @ word_stores (s + sz) (pattern_32 c) ((2 ^ LENGTH('a) - 1) div 4)
             @ byte_stores (s + sz + 4 * drop_bit 2 (- 1)) (ucast (c AND 0xff)) 3"
      unfolding ucast_and_ff wordwise_32_unaligned_three_phase using t(2) by simp
    show "0 < (2 ^ LENGTH('a) - 1) div (4 :: nat)"
      using all_ones_div_pos [OF w] by simp
  }
  {
    assume h: "LENGTH('a) = 2 ^ k \<and> 3 \<le> k \<and> k \<le> 30 \<and> sz < distance (k - 3) s"
    then have L: "LENGTH('a) = 2 ^ k" and k: "3 \<le> k" "k \<le> 30" and d: "sz < distance (k - 3) s"
      by simp_all
    obtain x :: "'a word" where x: "lanes x (ucast c)"
      and px: "pattern_loop LENGTH('a) 3 (ucast (c AND 0xff :: cint)) = (k, x)"
      and W: "LENGTH('a) div 8 = 2 ^ (k - 3)" and jw: "k - 3 < LENGTH('a)" and j32: "k - 3 \<le> 32"
      and run: "\<And>s sz st. wordwise_unaligned_memset LENGTH('a) s c sz st = three_phase (k - 3) x (ucast c) s sz st"
      using generic_three_phase [OF L k, of c] by metis
    note t = three_phase_wrap_trace [OF x W jw j32 d, of stw]
    show "snd (prologue_loop (of_nat (LENGTH('a) div 8 - 1)) s (ucast (c AND 0xff)) sz stw) = (s + sz, - 1)"
      unfolding ucast_and_ff W of_nat_mask by (rule t(1))
    show "unat (- 1 :: 'a word) = 2 ^ LENGTH('a) - 1" by (rule u)
    show "trace (fst (wordwise_unaligned_memset LENGTH('a) s c sz stw)) =
           trace stw @ byte_stores s (ucast (c AND 0xff)) (unat sz)
             @ word_stores (s + sz) (snd (pattern_loop LENGTH('a) 3 (ucast (c AND 0xff)) :: nat \<times> 'a word))
                 ((2 ^ LENGTH('a) - 1) div (LENGTH('a) div 8))
             @ byte_stores (s + sz + of_nat (LENGTH('a) div 8) * drop_bit (k - 3) (- 1)) (ucast (c AND 0xff))
                 (LENGTH('a) div 8 - 1)"
      unfolding ucast_and_ff run px W using t(2) by simp
    show "0 < (2 ^ LENGTH('a) - 1) div (LENGTH('a) div 8)"
      unfolding W by (rule all_ones_div_pos [OF jw])
  }
qed

theorem prologue_counter_wraps_witness:
  "2 < LENGTH(32) \<and> (1 :: 32 word) < distance 2 1
   \<and> LENGTH(32) = 2 ^ 5 \<and> (3 :: nat) \<le> 5 \<and> (5 :: nat) \<le> 30 \<and> (1 :: 32 word) < distance (5 - 3) 1
   \<and> snd (prologue_loop 3 (1 :: 32 word) (ucast (0x41 AND 0xff :: cint)) 1 zero32) = (1 + 1, - 1)
   \<and> unat (- 1 :: 32 word) = 2 ^ LENGTH(32) - 1
   \<and> length (filter is_word_store (trace (fst (wordwise_32_unaligned_memset (1 :: 32 word) 0x41 1 zero32))))
        = (2 ^ LENGTH(32) - 1) div 4
   \<and> length (filter is_byte_store (trace (fst (wordwise_32_unaligned_memset (1 :: 32 word) 0x41 1 zero32))))
        = 1 + 3
   \<and> snd (prologue_loop (of_nat (LENGTH(32) div 8 - 1)) (1 :: 32 word) (ucast (0x41 AND 0xff :: cint)) 1 zero32) = (1 + 1, - 1)
   \<and> length (filter is_word_store (trace (fst (wordwise_unaligned_memset LENGTH(32) (1 :: 32 word) 0x41 1 zero32))))
        = (2 ^ LENGTH(32) - 1) div (LENGTH(32) div 8)"
proof -
  have h1: "2 < LENGTH(32) \<and> (1 :: 32 word) < distance 2 1" using short_of_boundary(2) by simp
  have h2: "LENGTH(32) = 2 ^ 5 \<and> (3 :: nat) \<le> 5 \<and> (5 :: nat) \<le> 30 \<and> (1 :: 32 word) < distance (5 - 3) 1"
    using short_of_boundary(2) by simp
  note t = prologue_counter_wraps [where 'a = 32 and k = 5 and s = 1 and sz = 1 and c = "0x41"
      and ?st32.0 = zero32 and stw = zero32]
  note t1 = t [THEN conjunct1, THEN mp, OF h1]
  note t2 = t [THEN conjunct2, THEN mp, OF h2]
  have a: "snd (prologue_loop 3 (1 :: 32 word) (ucast (0x41 AND 0xff :: cint)) 1 zero32) = (1 + 1, - 1)"
    using t1 by blast
  have b: "unat (- 1 :: 32 word) = 2 ^ LENGTH(32) - 1"
    using t1 by blast
  have c: "length (filter is_word_store (trace (fst (wordwise_32_unaligned_memset (1 :: 32 word) 0x41 1 zero32))))
        = (2 ^ LENGTH(32) - 1) div 4"
    unfolding t1 [THEN conjunct2, THEN conjunct2, THEN conjunct1] by (simp add: zero32_def)
  have c': "length (filter is_byte_store (trace (fst (wordwise_32_unaligned_memset (1 :: 32 word) 0x41 1 zero32))))
        = 1 + 3"
    unfolding t1 [THEN conjunct2, THEN conjunct2, THEN conjunct1] by (simp add: zero32_def)
  have d: "snd (prologue_loop (of_nat (LENGTH(32) div 8 - 1)) (1 :: 32 word) (ucast (0x41 AND 0xff :: cint)) 1 zero32) = (1 + 1, - 1)"
    using t2 by blast
  have e: "length (filter is_word_store (trace (fst (wordwise_unaligned_memset LENGTH(32) (1 :: 32 word) 0x41 1 zero32))))
        = (2 ^ LENGTH(32) - 1) div (LENGTH(32) div 8)"
    unfolding t2 [THEN conjunct2, THEN conjunct2, THEN conjunct1] by (simp add: zero32_def)
  show ?thesis
    by (intro conjI h1 [THEN conjunct1] h1 [THEN conjunct2] h2 [THEN conjunct1]
        h2 [THEN conjunct2, THEN conjunct1] h2 [THEN conjunct2, THEN conjunct2, THEN conjunct1]
        h2 [THEN conjunct2, THEN conjunct2, THEN conjunct2] a b c c' d e)
qed

end
